theory Spec2Isabelle
  imports Main
begin

section \<open>Data model\<close>

text \<open>
  The exceptions the modelled code can raise. \<open>AttributeError\<close> is the one the two
  traversals raise themselves on an empty seed list (the spec calls it
  \<open>EmptySeedSet\<close>, and \<open>EmptyInitialSet\<close> when it surfaces from
  \<open>compute_S_hat\<close>); the others come from numpy indexing and broadcasting
  (\<open>IndexError\<close>, \<open>ValueError\<close>), from \<open>max\<close> of an empty sequence
  (\<open>ValueError\<close>), from subscripting the \<open>None\<close> that \<open>get_edge_data\<close>
  returns for a missing edge (\<open>TypeError\<close>) and from asking networkx for the edges
  of a node that is not in the graph (\<open>NetworkXError\<close>).
\<close>

datatype error = AttributeError | IndexError | ValueError | TypeError | NetworkXError

text \<open>
  A two-dimensional boolean numpy array is a list of rows. Numpy arrays are rectangular
  (\<open>rect r c\<close>); nodes and actions index them, and they are natural numbers here
  (numpy's negative indices are not modelled). An array without rows is \<open>[]\<close>, which
  does not record a number of columns: \<open>ncols\<close> takes it as 0.
\<close>

type_synonym matrix = "bool list list"

definition nrows :: "matrix \<Rightarrow> nat" where
  "nrows m = length m"

definition ncols :: "matrix \<Rightarrow> nat" where
  "ncols m = (case m of [] \<Rightarrow> 0 | r # _ \<Rightarrow> length r)"

definition rect :: "nat \<Rightarrow> nat \<Rightarrow> matrix \<Rightarrow> bool" where
  "rect r c m = (length m = r \<and> list_all (\<lambda>row. length row = c) m)"

text \<open>\<open>visited[i, j]\<close> as an rvalue: numpy raises IndexError out of range.\<close>

definition mget :: "matrix \<Rightarrow> nat \<Rightarrow> nat \<Rightarrow> error + bool" where
  "mget m i j = (if i < length m \<and> j < length (m ! i) then Inr (m ! i ! j) else Inl IndexError)"

text \<open>
  \<open>visited[i, j] = b\<close>. In the traversals every such write comes right after a
  successful read of the same cell, so it is in range there.
\<close>

definition mput :: "matrix \<Rightarrow> nat \<Rightarrow> nat \<Rightarrow> bool \<Rightarrow> matrix" where
  "mput m i j b = m[i := (m ! i)[j := b]]"

text \<open>The cell \<open>(i, j)\<close> exists and holds True.\<close>

definition cell :: "matrix \<Rightarrow> nat \<Rightarrow> nat \<Rightarrow> bool" where
  "cell m i j = (i < length m \<and> j < length (m ! i) \<and> m ! i ! j)"

text \<open>\<open>m[:] = False\<close>.\<close>

definition fill_false :: "matrix \<Rightarrow> matrix" where
  "fill_false m = map (map (\<lambda>_. False)) m"

text \<open>
  \<open>visited[initial_nodes, 0] = True\<close>: numpy checks every index of the fancy index
  before it writes anything.
\<close>

definition seed :: "matrix \<Rightarrow> nat list \<Rightarrow> error + matrix" where
  "seed m ns =
     (if list_all (\<lambda>n. n < length m \<and> 0 < length (m ! n)) ns
      then Inr (fold (\<lambda>n v. mput v n 0 True) ns m)
      else Inl IndexError)"

text \<open>
  \<open>a &= b\<close> on two-dimensional arrays: \<open>b\<close> is broadcast to the shape of \<open>a\<close>
  (an axis of \<open>b\<close> has the length of that of \<open>a\<close>, or length 1), otherwise
  numpy raises ValueError.
\<close>

definition iand :: "matrix \<Rightarrow> matrix \<Rightarrow> error + matrix" where
  "iand a b =
     (if (nrows b = nrows a \<or> nrows b = 1) \<and> (ncols b = ncols a \<or> ncols b = 1)
      then Inr (map (\<lambda>i. map (\<lambda>j. a ! i ! j \<and>
                  b ! (if nrows b = nrows a then i else 0) ! (if ncols b = ncols a then j else 0))
                [0..<ncols a]) [0..<nrows a])
      else Inl ValueError)"

text \<open>
  The \<open>safe\<close> attribute of an edge is either a plain boolean or, after
  \<open>link_graph_and_safe_set\<close>, the numpy view \<open>safe_set[node:node+1, action]\<close>: a
  reference to one cell of an array that lives in a store of arrays, by address. The
  traversals test the attribute's truth value when they read it: a one-element view is
  true when its element is, and the empty view (a row slice past the last row) is false.
\<close>

datatype safe_attr = Flag bool | View nat nat nat

type_synonym store = "nat \<Rightarrow> matrix"

fun truth :: "store \<Rightarrow> safe_attr \<Rightarrow> bool" where
  "truth st (Flag b) = b"
| "truth st (View p i j) = cell (st p) i j"

text \<open>
  A networkx DiGraph: its nodes in insertion order and its edges, each with the
  \<open>action\<close> and \<open>safe\<close> metadata the docstrings require. The edges leaving one
  node keep their relative order in \<open>edges\<close>.
\<close>

record edge =
  src :: nat
  dst :: nat
  action :: nat
  safe :: safe_attr

record digraph =
  nodes :: "nat list"
  edges :: "edge list"

text \<open>\<open>graph.edges(node, data=True)\<close>: networkx refuses a node that is not in the graph.\<close>

definition out_edges :: "digraph \<Rightarrow> nat \<Rightarrow> error + edge list" where
  "out_edges g n =
     (if n \<in> set (nodes g) then Inr (filter (\<lambda>e. src e = n) (edges g)) else Inl NetworkXError)"

text \<open>\<open>graph.get_edge_data(u, v)\<close>: the data of the edge, or \<open>None\<close>.\<close>

definition get_edge_data :: "digraph \<Rightarrow> nat \<Rightarrow> nat \<Rightarrow> edge option" where
  "get_edge_data g u v = find (\<lambda>e. src e = u \<and> dst e = v) (edges g)"

text \<open>
  \<open>graph.reverse()\<close>: a new graph on the same nodes with every edge turned round; the
  edge data is deep-copied, so a view becomes an array of its own, which keeps the truth
  value it had at that moment.
\<close>

definition reverse :: "store \<Rightarrow> digraph \<Rightarrow> digraph" where
  "reverse st g =
     \<lparr>nodes = nodes g,
      edges = map (\<lambda>e. \<lparr>src = dst e, dst = src e, action = action e,
                         safe = Flag (truth st (safe e))\<rparr>) (edges g)\<rparr>"

text \<open>\<open>max_out_degree\<close> of utilities.py: \<open>max\<close> of an empty generator raises ValueError.\<close>

definition out_degree :: "digraph \<Rightarrow> nat \<Rightarrow> nat" where
  "out_degree g n = length (filter (\<lambda>e. src e = n) (edges g))"

definition max_out_degree :: "digraph \<Rightarrow> error + nat" where
  "max_out_degree g =
     (case map (out_degree g) (nodes g) of
        [] \<Rightarrow> Inl ValueError
      | d # ds \<Rightarrow> Inr (fold max ds d))"

section \<open>The traversals\<close>

text \<open>
  The state of a traversal: the \<open>visited\<close> matrix, the FIFO \<open>stack\<close>, and a record
  of what the loop did, kept only to state how often a cell is set and a node is pushed:
  \<open>Mark i j\<close> for each assignment \<open>visited[i, j] = True\<close> and \<open>Push n\<close> for each
  node put on the stack. The record never influences the computation.
\<close>

datatype event = Mark nat nat | Push nat

type_synonym bstate = "matrix \<times> nat list \<times> event list"

text \<open>
  The body both for-loops share (lines 146-150 of \<open>reachable_set\<close> with
  \<open>x = node\<close>, \<open>y = next_node\<close>; lines 204-208 of \<open>returnable_set\<close> with
  \<open>x = y = prev_node\<close>):
  \<^verbatim>\<open>
  if not visited[x, a] and safe:
      visited[x, a] = True
      if not visited[y, 0]:
          stack.append(y)
          visited[y, 0] = True
  \<close>
  An IndexError leaves the state as it is at that point.
\<close>

definition visit_edge :: "nat \<Rightarrow> nat \<Rightarrow> bool \<Rightarrow> nat \<Rightarrow> bstate \<Rightarrow> error option \<times> bstate" where
  "visit_edge x a sf y s =
     (case s of (visited, stack, tr) \<Rightarrow>
        (case mget visited x a of
           Inl err \<Rightarrow> (Some err, s)
         | Inr b \<Rightarrow>
             if \<not> b \<and> sf then
               (case mget (mput visited x a True) y 0 of
                  Inl err \<Rightarrow> (Some err, (mput visited x a True, stack, tr @ [Mark x a]))
                | Inr b0 \<Rightarrow>
                    if \<not> b0 then
                      (None, (mput (mput visited x a True) y 0 True, stack @ [y],
                              tr @ [Mark x a, Push y, Mark y 0]))
                    else (None, (mput visited x a True, stack, tr @ [Mark x a])))
             else (None, s)))"

text \<open>The for-loop of \<open>reachable_set\<close> over the edges leaving \<open>node\<close>.\<close>

fun reach_edges :: "store \<Rightarrow> nat \<Rightarrow> edge list \<Rightarrow> bstate \<Rightarrow> error option \<times> bstate" where
  "reach_edges st node [] s = (None, s)"
| "reach_edges st node (e # es) s =
     (case visit_edge node (action e) (truth st (safe e)) (dst e) s of
        (Some err, s') \<Rightarrow> (Some err, s')
      | (None, s') \<Rightarrow> reach_edges st node es s')"

text \<open>
  The for-loop of \<open>returnable_set\<close> over the edges of the reverse graph leaving
  \<open>node\<close>; action and safety are looked up on the forward edge of \<open>graph\<close>.
\<close>

fun return_edges :: "store \<Rightarrow> digraph \<Rightarrow> nat \<Rightarrow> edge list \<Rightarrow> bstate \<Rightarrow> error option \<times> bstate" where
  "return_edges st g node [] s = (None, s)"
| "return_edges st g node (r # rs) s =
     (case get_edge_data g (dst r) node of
        None \<Rightarrow> (Some TypeError, s)
      | Some d \<Rightarrow>
          (case visit_edge (dst r) (action d) (truth st (safe d)) (dst r) s of
             (Some err, s') \<Rightarrow> (Some err, s')
           | (None, s') \<Rightarrow> return_edges st g node rs s'))"

text \<open>
  The measure of the while-loops: twice the number of rows whose column 0 is still
  false, plus the length of the stack.
\<close>

definition unmarked :: "matrix \<Rightarrow> nat" where
  "unmarked m = length (filter (\<lambda>r. r \<noteq> [] \<and> \<not> hd r) m)"

definition weight :: "bstate \<Rightarrow> nat" where
  "weight s = (case s of (visited, stack, tr) \<Rightarrow> 2 * unmarked visited + length stack)"

section \<open>Matrix cells and the loop measure\<close>

lemma mget_Inr: "mget m i j = Inr b \<longleftrightarrow> i < length m \<and> j < length (m ! i) \<and> b = m ! i ! j"
  by (auto simp: mget_def)

lemma mget_Inl: "mget m i j = Inl e \<longleftrightarrow> \<not> (i < length m \<and> j < length (m ! i)) \<and> e = IndexError"
  by (auto simp: mget_def)

lemma length_mput [simp]: "length (mput m i j b) = length m"
  by (simp add: mput_def)

lemma length_row_mput [simp]: "length (mput m i j b ! k) = length (m ! k)"
  by (cases "i < length m"; cases "k = i") (simp_all add: mput_def list_update_beyond)

lemma cell_mput: "cell (mput m i j True) k l \<longleftrightarrow> cell m k l \<or> (k = i \<and> l = j \<and> i < length m \<and> j < length (m ! i))"
  unfolding cell_def 
  by (cases "i < length m"; cases "k = i"; cases "l = j") (auto simp: mput_def)

lemma filter_update_le:
  "(P y \<Longrightarrow> P (xs ! i)) \<Longrightarrow> length (filter P (xs[i := y])) \<le> length (filter P xs)"
proof (induction xs arbitrary: i)
  case Nil
  then show ?case by simp
next
  case (Cons x xs)
  then show ?case by (cases i) auto
qed

lemma filter_update_less:
  "i < length xs \<Longrightarrow> P (xs ! i) \<Longrightarrow> \<not> P y \<Longrightarrow> length (filter P (xs[i := y])) < length (filter P xs)"
proof (induction xs arbitrary: i)
  case Nil
  then show ?case by simp
next
  case (Cons x xs)
  then show ?case by (cases i) (auto simp: Suc_le_eq intro: le_less_trans[OF filter_update_le])
qed

lemma unmarked_mput_le: "unmarked (mput m i j True) \<le> unmarked m"
  unfolding unmarked_def mput_def
  by (rule filter_update_le) (cases "m ! i"; cases j; simp)

lemma unmarked_mput_less: "mget m i 0 = Inr False \<Longrightarrow> unmarked (mput m i 0 True) < unmarked m"
  unfolding unmarked_def mput_def mget_Inr
  by (rule filter_update_less) (auto simp: hd_conv_nth)

lemma visit_edge_weight: "visit_edge x a sf y s = (r, s') \<Longrightarrow> weight s' \<le> weight s"
  using unmarked_mput_le[of "fst s" x a]
        unmarked_mput_less[of "mput (fst s) x a True" y]
        unmarked_mput_le[of "mput (fst s) x a True" y 0]
  by (auto simp: visit_edge_def weight_def split: prod.splits sum.splits if_splits)

lemma reach_edges_weight: "reach_edges st n es s = (r, s') \<Longrightarrow> weight s' \<le> weight s"
proof (induction es arbitrary: s)
  case Nil
  then show ?case by simp
next
  case (Cons e es)
  show ?case
  proof -
    obtain r1 s1 where v: "visit_edge n (action e) (truth st (safe e)) (dst e) s = (r1, s1)"
      by (cases "visit_edge n (action e) (truth st (safe e)) (dst e) s")
    with Cons.prems visit_edge_weight[OF v] show ?thesis
      by (cases r1) (auto dest!: Cons.IH)
  qed
qed

lemma return_edges_weight: "return_edges st g n rs s = (r, s') \<Longrightarrow> weight s' \<le> weight s"
proof (induction rs arbitrary: s)
  case Nil
  then show ?case by simp
next
  case (Cons e es)
  show ?case
  proof (cases "get_edge_data g (dst e) n")
    case None
    with Cons show ?thesis by simp
  next
    case (Some d)
    show ?thesis
    proof -
      obtain r1 s1 where v: "visit_edge (dst e) (action d) (truth st (safe d)) (dst e) s = (r1, s1)"
        by (cases "visit_edge (dst e) (action d) (truth st (safe d)) (dst e) s")
      with Cons.prems Some visit_edge_weight[OF v] show ?thesis
        by (cases r1) (auto dest!: Cons.IH)
    qed
  qed
qed

text \<open>The while-loop of \<open>reachable_set\<close>: \<open>stack.pop(0)\<close> takes the head.\<close>

function reach_loop :: "store \<Rightarrow> digraph \<Rightarrow> bstate \<Rightarrow> error option \<times> bstate" where
  "reach_loop st g (visited, [], tr) = (None, (visited, [], tr))"
| "reach_loop st g (visited, node # stack, tr) =
     (case out_edges g node of
        Inl err \<Rightarrow> (Some err, (visited, stack, tr))
      | Inr es \<Rightarrow>
          (case reach_edges st node es (visited, stack, tr) of
             (Some err, s') \<Rightarrow> (Some err, s')
           | (None, s') \<Rightarrow> reach_loop st g s'))"
  by pat_completeness auto
termination
  apply (relation "measure (\<lambda>(st, g, s). weight s)")
   apply simp
  subgoal for st g visited node stack tr es x s'
    using reach_edges_weight[of st node es "(visited, stack, tr)" None s']
    by (simp add: weight_def)
  done


text \<open>The while-loop of \<open>returnable_set\<close>.\<close>

function return_loop :: "store \<Rightarrow> digraph \<Rightarrow> digraph \<Rightarrow> bstate \<Rightarrow> error option \<times> bstate" where
  "return_loop st g rg (visited, [], tr) = (None, (visited, [], tr))"
| "return_loop st g rg (visited, node # stack, tr) =
     (case out_edges rg node of
        Inl err \<Rightarrow> (Some err, (visited, stack, tr))
      | Inr rs \<Rightarrow>
          (case return_edges st g node rs (visited, stack, tr) of
             (Some err, s') \<Rightarrow> (Some err, s')
           | (None, s') \<Rightarrow> return_loop st g rg s'))"
  by pat_completeness auto
termination
  apply (relation "measure (\<lambda>(st, g, rg, s). weight s)")
   apply simp
  subgoal for st g rg visited node stack tr rs x s'
    using return_edges_weight[of st g node rs "(visited, stack, tr)" None s']
    by (simp add: weight_def)
  done

text \<open>
  \<open>reachable_set(graph, initial_nodes, out)\<close> with a caller-supplied \<open>out\<close>, as
  \<open>compute_S_hat\<close> calls it (without \<open>out\<close> the function runs the same code on
  a fresh all-false matrix and returns it). The result is the exception raised, if any,
  and the contents of \<open>out\<close> when the call ends; \<open>reachable_run\<close> also gives the
  final stack and the record of the run, which starts with the seeding.
\<close>

definition reachable_run :: "store \<Rightarrow> digraph \<Rightarrow> nat list \<Rightarrow> matrix \<Rightarrow> error option \<times> bstate" where
  "reachable_run st g initial_nodes out =
     (if initial_nodes = [] then (Some AttributeError, (out, [], []))
      else case seed out initial_nodes of
             Inl err \<Rightarrow> (Some err, (out, [], []))
           | Inr visited \<Rightarrow>
               reach_loop st g (visited, initial_nodes,
                 map (\<lambda>n. Mark n 0) initial_nodes @ map Push initial_nodes))"

definition reachable_set :: "store \<Rightarrow> digraph \<Rightarrow> nat list \<Rightarrow> matrix \<Rightarrow> error option \<times> matrix" where
  "reachable_set st g initial_nodes out =
     (case reachable_run st g initial_nodes out of (err, (visited, stack, tr)) \<Rightarrow> (err, visited))"

definition reachable_trace :: "store \<Rightarrow> digraph \<Rightarrow> nat list \<Rightarrow> matrix \<Rightarrow> event list" where
  "reachable_trace st g initial_nodes out =
     (case reachable_run st g initial_nodes out of (err, (visited, stack, tr)) \<Rightarrow> tr)"

text \<open>\<open>returnable_set(graph, reverse_graph, initial_nodes, out)\<close>, likewise.\<close>

definition returnable_run ::
  "store \<Rightarrow> digraph \<Rightarrow> digraph \<Rightarrow> nat list \<Rightarrow> matrix \<Rightarrow> error option \<times> bstate" where
  "returnable_run st g rg initial_nodes out =
     (if initial_nodes = [] then (Some AttributeError, (out, [], []))
      else case seed out initial_nodes of
             Inl err \<Rightarrow> (Some err, (out, [], []))
           | Inr visited \<Rightarrow>
               return_loop st g rg (visited, initial_nodes,
                 map (\<lambda>n. Mark n 0) initial_nodes @ map Push initial_nodes))"

definition returnable_set ::
  "store \<Rightarrow> digraph \<Rightarrow> digraph \<Rightarrow> nat list \<Rightarrow> matrix \<Rightarrow> error option \<times> matrix" where
  "returnable_set st g rg initial_nodes out =
     (case returnable_run st g rg initial_nodes out of (err, (visited, stack, tr)) \<Rightarrow> (err, visited))"

definition returnable_trace ::
  "store \<Rightarrow> digraph \<Rightarrow> digraph \<Rightarrow> nat list \<Rightarrow> matrix \<Rightarrow> event list" where
  "returnable_trace st g rg initial_nodes out =
     (case returnable_run st g rg initial_nodes out of (err, (visited, stack, tr)) \<Rightarrow> tr)"

section \<open>The SafeMDP class\<close>

text \<open>
  The Gaussian process is an external collaborator; only its data arrays \<open>X\<close> and
  \<open>Y\<close> appear in the code. The floating-point parameters are only stored, so their
  type is left open.
\<close>

record 'f gp_model =
  gp_X :: "'f list list"
  gp_Y :: "'f list list"

record 'f safe_mdp =
  beta :: 'f
  h :: 'f
  L :: 'f
  gp :: "'f gp_model"
  graph :: digraph
  graph_reverse :: digraph
  reach :: matrix
  G :: matrix
  S_hat :: matrix
  S_hat0 :: matrix
  initial_nodes :: "nat list"

text \<open>\<open>np.empty(shape)\<close>: an array of the shape with whatever the memory holds.\<close>

definition np_empty :: "nat \<Rightarrow> nat \<Rightarrow> (nat \<Rightarrow> nat \<Rightarrow> bool) \<Rightarrow> matrix" where
  "np_empty r c junk = map (\<lambda>i. map (\<lambda>j. junk i j) [0..<c]) [0..<r]"

text \<open>
  \<open>S_hat0[:, 0].nonzero()[0].tolist()\<close>: the indices of the rows whose column 0 is
  true; IndexError when the array has no column 0.
\<close>

definition column0_nonzero :: "matrix \<Rightarrow> error + nat list" where
  "column0_nonzero m =
     (if list_all (\<lambda>r. r \<noteq> []) m
      then Inr (filter (\<lambda>i. m ! i ! 0) [0..<length m])
      else Inl IndexError)"

text \<open>
  \<open>SafeMDP.__init__\<close>. The two \<open>junk\<close> arguments stand for the uninitialised
  contents of the two \<open>np.empty\<close> arrays.
\<close>

definition SafeMDP_init ::
  "store \<Rightarrow> digraph \<Rightarrow> 'f gp_model \<Rightarrow> matrix \<Rightarrow> 'f \<Rightarrow> 'f \<Rightarrow> 'f \<Rightarrow>
   (nat \<Rightarrow> nat \<Rightarrow> bool) \<Rightarrow> (nat \<Rightarrow> nat \<Rightarrow> bool) \<Rightarrow> error + 'f safe_mdp" where
  "SafeMDP_init st graph0 gp0 S_hat00 h0 L0 beta0 junk_reach junk_G =
     (case max_out_degree graph0 of
        Inl err \<Rightarrow> Inl err
      | Inr num_edges \<Rightarrow>
          (case column0_nonzero S_hat00 of
             Inl err \<Rightarrow> Inl err
           | Inr ns \<Rightarrow>
               Inr \<lparr>beta = beta0, h = h0, L = L0, gp = gp0,
                    graph = graph0, graph_reverse = reverse st graph0,
                    reach = np_empty (length (nodes graph0)) (num_edges + 1) junk_reach,
                    G = np_empty (length (nodes graph0)) (num_edges + 1) junk_G,
                    S_hat = S_hat00, S_hat0 = S_hat00, initial_nodes = ns\<rparr>))"

text \<open>
  \<open>SafeMDP.compute_S_hat\<close>. The result is the exception raised, if any, and the
  object as the call leaves it. \<open>st\<close> is the store of arrays at the time of the call:
  it decides the edges whose \<open>safe\<close> attribute is a view.
\<close>

definition compute_S_hat :: "store \<Rightarrow> 'f safe_mdp \<Rightarrow> error option \<times> 'f safe_mdp" where
  "compute_S_hat st s =
     (case reachable_set st (graph s) (initial_nodes s) (fill_false (reach s)) of
        (Some err, r) \<Rightarrow> (Some err, s\<lparr>reach := r\<rparr>)
      | (None, r) \<Rightarrow>
          (case returnable_set st (graph s) (graph_reverse s) (initial_nodes s)
                  (fill_false (S_hat s)) of
             (Some err, m) \<Rightarrow> (Some err, s\<lparr>reach := r, S_hat := m\<rparr>)
           | (None, m) \<Rightarrow>
               (case iand m r of
                  Inl err \<Rightarrow> (Some err, s\<lparr>reach := r, S_hat := m\<rparr>)
                | Inr m' \<Rightarrow> (None, s\<lparr>reach := r, S_hat := m'\<rparr>))))"





section \<open>The loops as task loops\<close>

text \<open>
  For the proofs, the two loops are instances of one: each popped node has a list of
  tasks \<open>(x, a, sf, y)\<close>, one per edge, on which the shared body runs. A task list
  can hold an error in place of a task (the TypeError of a failed lookup), raised when
  the loop gets there.
\<close>

type_synonym task = "nat \<times> nat \<times> bool \<times> nat"

fun run_tasks :: "(error + task) list \<Rightarrow> bstate \<Rightarrow> error option \<times> bstate" where
  "run_tasks [] s = (None, s)"
| "run_tasks (Inl err # ts) s = (Some err, s)"
| "run_tasks (Inr (x, a, sf, y) # ts) s =
     (case visit_edge x a sf y s of
        (Some err, s') \<Rightarrow> (Some err, s')
      | (None, s') \<Rightarrow> run_tasks ts s')"

lemma run_tasks_weight: "run_tasks ts s = (r, s') \<Longrightarrow> weight s' \<le> weight s"
proof (induction ts arbitrary: s)
  case Nil
  then show ?case by simp
next
  case (Cons t ts)
  show ?case
  proof (cases t)
    case (Inl err)
    with Cons.prems show ?thesis by simp
  next
    case (Inr q)
    obtain x a sf y where q: "q = (x, a, sf, y)" by (cases q)
    obtain r1 s1 where v: "visit_edge x a sf y s = (r1, s1)"
      by (cases "visit_edge x a sf y s")
    with Cons.prems Inr q visit_edge_weight[OF v] show ?thesis
      by (cases r1) (auto dest!: Cons.IH)
  qed
qed

function task_loop :: "(nat \<Rightarrow> error + (error + task) list) \<Rightarrow> bstate \<Rightarrow> error option \<times> bstate" where
  "task_loop T (visited, [], tr) = (None, (visited, [], tr))"
| "task_loop T (visited, node # stack, tr) =
     (case T node of
        Inl err \<Rightarrow> (Some err, (visited, stack, tr))
      | Inr ts \<Rightarrow>
          (case run_tasks ts (visited, stack, tr) of
             (Some err, s') \<Rightarrow> (Some err, s')
           | (None, s') \<Rightarrow> task_loop T s'))"
  by pat_completeness auto
termination
  apply (relation "measure (\<lambda>(T, s). weight s)")
   apply simp
  subgoal for T visited node stack tr ts x s'
    using run_tasks_weight[of ts "(visited, stack, tr)" None s']
    by (simp add: weight_def)
  done

definition reach_tasks :: "store \<Rightarrow> digraph \<Rightarrow> nat \<Rightarrow> error + (error + task) list" where
  "reach_tasks st g n =
     (case out_edges g n of
        Inl err \<Rightarrow> Inl err
      | Inr es \<Rightarrow> Inr (map (\<lambda>e. Inr (n, action e, truth st (safe e), dst e)) es))"

definition return_tasks :: "store \<Rightarrow> digraph \<Rightarrow> digraph \<Rightarrow> nat \<Rightarrow> error + (error + task) list" where
  "return_tasks st g rg n =
     (case out_edges rg n of
        Inl err \<Rightarrow> Inl err
      | Inr rs \<Rightarrow>
          Inr (map (\<lambda>r. case get_edge_data g (dst r) n of
                           None \<Rightarrow> Inl TypeError
                         | Some d \<Rightarrow> Inr (dst r, action d, truth st (safe d), dst r)) rs))"

lemma reach_edges_tasks:
  "reach_edges st n es s = run_tasks (map (\<lambda>e. Inr (n, action e, truth st (safe e), dst e)) es) s"
  by (induction es arbitrary: s) (auto split: prod.splits option.splits)

lemma return_edges_tasks:
  "return_edges st g n rs s =
     run_tasks (map (\<lambda>r. case get_edge_data g (dst r) n of
                            None \<Rightarrow> Inl TypeError
                          | Some d \<Rightarrow> Inr (dst r, action d, truth st (safe d), dst r)) rs) s"
  by (induction rs arbitrary: s) (auto split: prod.splits option.splits)

lemma reach_loop_tasks: "reach_loop st g s = task_loop (reach_tasks st g) s"
proof (induction st g s rule: reach_loop.induct)
  case (1 st g visited tr)
  show ?case by simp
next
  case (2 st g visited node stack tr)
  show ?case
  proof (cases "out_edges g node")
    case (Inl err)
    then show ?thesis by (simp add: reach_tasks_def)
  next
    case (Inr es)
    obtain r1 s1 where v: "reach_edges st node es (visited, stack, tr) = (r1, s1)"
      by (cases "reach_edges st node es (visited, stack, tr)")
    show ?thesis
    proof (cases r1)
      case None
      with Inr v "2.IH"[OF Inr v[symmetric]] show ?thesis
        by (simp add: reach_tasks_def reach_edges_tasks[symmetric])
    next
      case (Some err)
      with Inr v show ?thesis
        by (simp add: reach_tasks_def reach_edges_tasks[symmetric])
    qed
  qed
qed

lemma return_loop_tasks: "return_loop st g rg s = task_loop (return_tasks st g rg) s"
proof (induction st g rg s rule: return_loop.induct)
  case (1 st g rg visited tr)
  show ?case by simp
next
  case (2 st g rg visited node stack tr)
  show ?case
  proof (cases "out_edges rg node")
    case (Inl err)
    then show ?thesis by (simp add: return_tasks_def)
  next
    case (Inr rs)
    obtain r1 s1 where v: "return_edges st g node rs (visited, stack, tr) = (r1, s1)"
      by (cases "return_edges st g node rs (visited, stack, tr)")
    show ?thesis
    proof (cases r1)
      case None
      with Inr v "2.IH"[OF Inr v[symmetric]] show ?thesis
        by (simp add: return_tasks_def return_edges_tasks[symmetric])
    next
      case (Some err)
      with Inr v show ?thesis
        by (simp add: return_tasks_def return_edges_tasks[symmetric])
    qed
  qed
qed

lemma run_tasks_inv:
  assumes step: "\<And>x a sf y s r s'. I s \<Longrightarrow> visit_edge x a sf y s = (r, s') \<Longrightarrow> I s'"
  shows "I s \<Longrightarrow> run_tasks ts s = (r, s') \<Longrightarrow> I s'"
proof (induction ts arbitrary: s)
  case Nil
  then show ?case by simp
next
  case (Cons t ts)
  show ?case
  proof (cases t)
    case (Inl err)
    with Cons.prems show ?thesis by simp
  next
    case (Inr q)
    obtain x a sf y where q: "q = (x, a, sf, y)" by (cases q)
    obtain r1 s1 where v: "visit_edge x a sf y s = (r1, s1)"
      by (cases "visit_edge x a sf y s")
    have i1: "I s1" using step[OF Cons.prems(1) v] .
    show ?thesis
    proof (cases r1)
      case None
      with v Inr q Cons.prems have "run_tasks ts s1 = (r, s')" by simp
      with Cons.IH i1 show ?thesis by simp
    next
      case (Some err)
      with v Inr q Cons.prems i1 show ?thesis by simp
    qed
  qed
qed

lemma task_loop_inv:
  assumes step: "\<And>x a sf y s r s'. I s \<Longrightarrow> visit_edge x a sf y s = (r, s') \<Longrightarrow> I s'"
    and pop: "\<And>v n stk tr. I (v, n # stk, tr) \<Longrightarrow> I (v, stk, tr)"
  shows "I s \<Longrightarrow> task_loop T s = (r, s') \<Longrightarrow> I s'"
proof (induction T s rule: task_loop.induct)
  case (1 T visited tr)
  then show ?case by simp
next
  case (2 T visited node stack tr)
  have i0: "I (visited, stack, tr)" using pop[OF "2.prems"(1)] .
  show ?case
  proof (cases "T node")
    case (Inl err)
    with "2.prems" i0 show ?thesis by simp
  next
    case (Inr ts)
    obtain r1 s1 where v: "run_tasks ts (visited, stack, tr) = (r1, s1)"
      by (cases "run_tasks ts (visited, stack, tr)")
    have i1: "I s1" using run_tasks_inv[where I = I, OF step i0 v] .
    show ?thesis
    proof (cases r1)
      case None
      with Inr v "2.prems" have "task_loop T s1 = (r, s')" by simp
      with "2.IH"[OF Inr v[symmetric]] None i1 show ?thesis by simp
    next
      case (Some err)
      with Inr v "2.prems" i1 show ?thesis by simp
    qed
  qed
qed

lemma task_loop_stack_empty: "task_loop T s = (None, (v', stk', tr')) \<Longrightarrow> stk' = []"
proof (induction T s rule: task_loop.induct)
  case (1 T visited tr)
  then show ?case by simp
next
  case (2 T visited node stack tr)
  show ?case
  proof (cases "T node")
    case (Inl err)
    with "2.prems" show ?thesis by simp
  next
    case (Inr ts)
    obtain r1 s1 where v: "run_tasks ts (visited, stack, tr) = (r1, s1)"
      by (cases "run_tasks ts (visited, stack, tr)")
    show ?thesis
    proof (cases r1)
      case None
      with Inr v "2.prems" have "task_loop T s1 = (None, (v', stk', tr'))" by simp
      with "2.IH"[OF Inr v[symmetric]] None show ?thesis by simp
    next
      case (Some err)
      with Inr v "2.prems" show ?thesis by simp
    qed
  qed
qed

section \<open>Scenario A\<close>

text \<open>Scenario A of the spec: the line graph 0 -> 1 -> 2, action 1 on both edges, both safe.\<close>

definition line_graph :: digraph where
  "line_graph =
     \<lparr>nodes = [0, 1, 2],
      edges = [\<lparr>src = 0, dst = 1, action = 1, safe = Flag True\<rparr>,
               \<lparr>src = 1, dst = 2, action = 1, safe = Flag True\<rparr>]\<rparr>"

definition seed_node0 :: matrix where
  "seed_node0 = [[True, False], [False, False], [False, False]]"

lemmas eval_simps = SafeMDP_init_def compute_S_hat_def reachable_set_def reachable_run_def
  returnable_set_def returnable_run_def max_out_degree_def out_degree_def column0_nonzero_def
  np_empty_def fill_false_def seed_def mput_def mget_def visit_edge_def out_edges_def
  get_edge_data_def reverse_def iand_def nrows_def ncols_def

lemma line_graph_init:
  "SafeMDP_init st line_graph gp0 seed_node0 h0 L0 beta0 junk1 junk2 =
     Inr \<lparr>beta = beta0, h = h0, L = L0, gp = gp0, graph = line_graph,
          graph_reverse = reverse st line_graph,
          reach = np_empty 3 2 junk1, G = np_empty 3 2 junk2,
          S_hat = seed_node0, S_hat0 = seed_node0, initial_nodes = [0]\<rparr>"
  by (simp add: SafeMDP_init_def max_out_degree_def out_degree_def column0_nonzero_def line_graph_def seed_node0_def upt_rec numeral_3_eq_3 numeral_2_eq_2)

lemma fill_false_np_empty_3_2:
  "fill_false (np_empty 3 2 junk) = [[False, False], [False, False], [False, False]]"
  by (simp add: fill_false_def np_empty_def upt_rec)

lemma line_graph_reach:
  "reachable_set st line_graph [0] (fill_false (np_empty 3 2 junk1)) = (None, [[True, True], [True, True], [True, False]])"
  unfolding fill_false_np_empty_3_2
  by (simp add: eval_simps line_graph_def)

lemma line_graph_return:
  "returnable_set st line_graph (reverse st line_graph) [0] (fill_false seed_node0) = (None, [[True, False], [False, False], [False, False]])"
  by (simp add: eval_simps line_graph_def seed_node0_def)

text \<open>
  C3: on the line graph with seed set {0}, constructing the SafeMDP and calling
  \<open>compute_S_hat\<close> succeeds and leaves \<open>reach\<close> true exactly at (0,0), (0,1),
  (1,0), (1,1), (2,0) and \<open>S_hat\<close> true exactly at (0,0), whatever the store, the
  other parameters and the uninitialised contents of \<open>reach\<close> are.
\<close>

theorem scenario_A:
  "\<exists>s s'. SafeMDP_init st line_graph gp0 seed_node0 h0 L0 beta0 junk1 junk2 = Inr s \<and>
     compute_S_hat st s = (None, s') \<and>
     reach s' = [[True, True], [True, True], [True, False]] \<and>
     S_hat s' = [[True, False], [False, False], [False, False]]"
  unfolding line_graph_init
  by (simp add: compute_S_hat_def line_graph_reach line_graph_return iand_def nrows_def ncols_def)

section \<open>Shapes are preserved\<close>

lemma map_length_mput: "map length (mput m i j b) = map length m"
  by (rule nth_equalityI) simp_all

lemma rect_iff: "rect r c m \<longleftrightarrow> map length m = replicate r c"
  unfolding rect_def list_all_length
  by (auto simp: list_eq_iff_nth_eq)

lemma map_length_fill_false: "map length (fill_false m) = map length m"
  by (simp add: fill_false_def comp_def)

lemma cell_fill_false: "\<not> cell (fill_false m) i j"
  by (auto simp: cell_def fill_false_def)

lemma visit_edge_shape:
  "visit_edge x a sf y s = (r, s') \<Longrightarrow> map length (fst s') = map length (fst s)"
  by (auto simp: visit_edge_def map_length_mput split: prod.splits sum.splits if_splits)

lemma task_loop_shape:
  assumes "task_loop T s = (r, s')"
  shows "map length (fst s') = map length (fst s)"
proof -
  have "(\<lambda>q. map length (fst q) = map length (fst s)) s'"
    by (rule task_loop_inv[where I = "\<lambda>q. map length (fst q) = map length (fst s)", OF _ _ _ assms])
       (auto dest: visit_edge_shape)
  then show ?thesis .
qed

lemma fold_mput_shape: "map length (fold (\<lambda>n v. mput v n 0 True) ns m) = map length m"
  by (induction ns arbitrary: m) (simp_all add: map_length_mput)

lemma seed_shape: "seed m ns = Inr v \<Longrightarrow> map length v = map length m"
  by (auto simp: seed_def fold_mput_shape split: if_splits)

lemma reachable_set_shape: "map length (snd (reachable_set st g ns out)) = map length out"
proof (cases "ns = []")
  case True
  then show ?thesis by (simp add: reachable_set_def reachable_run_def)
next
  case False
  show ?thesis
  proof (cases "seed out ns")
    case (Inl err)
    with False show ?thesis by (simp add: reachable_set_def reachable_run_def)
  next
    case (Inr v)
    obtain r1 s1 where l: "task_loop (reach_tasks st g) (v, ns, map (\<lambda>n. Mark n 0) ns @ map Push ns) = (r1, s1)"
      by (cases "task_loop (reach_tasks st g) (v, ns, map (\<lambda>n. Mark n 0) ns @ map Push ns)")
    from task_loop_shape[OF l] seed_shape[OF Inr] have "map length (fst s1) = map length out" by simp
    with False Inr l show ?thesis
      by (cases s1) (simp add: reachable_set_def reachable_run_def reach_loop_tasks)
  qed
qed

lemma returnable_set_shape: "map length (snd (returnable_set st g rg ns out)) = map length out"
proof (cases "ns = []")
  case True
  then show ?thesis by (simp add: returnable_set_def returnable_run_def)
next
  case False
  show ?thesis
  proof (cases "seed out ns")
    case (Inl err)
    with False show ?thesis by (simp add: returnable_set_def returnable_run_def)
  next
    case (Inr v)
    obtain r1 s1 where l: "task_loop (return_tasks st g rg) (v, ns, map (\<lambda>n. Mark n 0) ns @ map Push ns) = (r1, s1)"
      by (cases "task_loop (return_tasks st g rg) (v, ns, map (\<lambda>n. Mark n 0) ns @ map Push ns)")
    from task_loop_shape[OF l] seed_shape[OF Inr] have "map length (fst s1) = map length out" by simp
    with False Inr l show ?thesis
      by (cases s1) (simp add: returnable_set_def returnable_run_def return_loop_tasks)
  qed
qed

lemma ncols_rect: "rect r c m \<Longrightarrow> 0 < r \<Longrightarrow> ncols m = c"
  by (cases m) (auto simp: rect_def ncols_def)

lemma iand_rect:
  assumes "rect r c a" "rect r c b"
  shows "\<exists>m. iand a b = Inr m \<and> rect r c m \<and> (\<forall>i j. cell m i j \<longleftrightarrow> cell a i j \<and> cell b i j)"
proof (cases "r = 0")
  case True
  with assms show ?thesis by (simp add: iand_def rect_def nrows_def ncols_def cell_def)
next
  case False
  with assms have nc: "ncols a = c" "ncols b = c" and nr: "nrows a = r" "nrows b = r"
    by (auto simp: ncols_rect rect_def nrows_def)
  have la: "\<And>i. i < r \<Longrightarrow> length (a ! i) = c" and lb: "\<And>i. i < r \<Longrightarrow> length (b ! i) = c"
    using assms by (auto simp: rect_def list_all_length)
  let ?m = "map (\<lambda>i. map (\<lambda>j. a ! i ! j \<and> b ! i ! j) [0..<c]) [0..<r]"
  have "iand a b = Inr ?m" by (simp add: iand_def nc nr)
  moreover have "rect r c ?m" by (simp add: rect_def list_all_iff)
  moreover have "\<forall>i j. cell ?m i j \<longleftrightarrow> cell a i j \<and> cell b i j"
    using la lb assms by (auto simp: cell_def rect_def)
  ultimately show ?thesis by blast
qed

text \<open>
  When \<open>reach\<close> and \<open>S_hat\<close> have the same shape, a call that returns leaves
  both with that shape, and \<open>S_hat\<close> below \<open>reach\<close>.
\<close>

lemma compute_S_hat_subset:
  assumes "rect r c (reach s)" "rect r c (S_hat s)" "compute_S_hat st s = (None, s')"
  shows "rect r c (reach s') \<and> rect r c (S_hat s') \<and> (\<forall>i j. cell (S_hat s') i j \<longrightarrow> cell (reach s') i j)"
proof -
  obtain e1 rr where r1: "reachable_set st (graph s) (initial_nodes s) (fill_false (reach s)) = (e1, rr)"
    by (cases "reachable_set st (graph s) (initial_nodes s) (fill_false (reach s))")
  obtain e2 mm where r2: "returnable_set st (graph s) (graph_reverse s) (initial_nodes s) (fill_false (S_hat s)) = (e2, mm)"
    by (cases "returnable_set st (graph s) (graph_reverse s) (initial_nodes s) (fill_false (S_hat s))")
  have "rect r c rr"
    using reachable_set_shape[of st "graph s" "initial_nodes s" "fill_false (reach s)"] r1 assms(1)
    by (simp add: rect_iff map_length_fill_false)
  moreover have "rect r c mm"
    using returnable_set_shape[of st "graph s" "graph_reverse s" "initial_nodes s" "fill_false (S_hat s)"] r2 assms(2)
    by (simp add: rect_iff map_length_fill_false)
  ultimately obtain m where m: "iand mm rr = Inr m" "rect r c m" "\<forall>i j. cell m i j \<longleftrightarrow> cell mm i j \<and> cell rr i j"
    using iand_rect by blast
  from assms(3) r1 r2 m(1) have "s' = s\<lparr>reach := rr, S_hat := m\<rparr>"
    by (auto simp: compute_S_hat_def split: option.splits)
  with m \<open>rect r c rr\<close> show ?thesis by simp
qed

section \<open>The subset law and the empty seed list\<close>

text \<open>Concrete objects for the examples: a store without arrays, and the SafeMDP of Scenario A.\<close>

definition no_store :: store where
  "no_store = (\<lambda>_. [])"

definition line_mdp :: "nat safe_mdp" where
  "line_mdp =
     \<lparr>beta = 2, h = 0, L = 0, gp = \<lparr>gp_X = [], gp_Y = []\<rparr>,
      graph = line_graph, graph_reverse = reverse no_store line_graph,
      reach = np_empty 3 2 (\<lambda>_ _. True), G = np_empty 3 2 (\<lambda>_ _. True),
      S_hat = seed_node0, S_hat0 = seed_node0, initial_nodes = [0]\<rparr>"


lemma line_mdp_compute:
  "compute_S_hat no_store line_mdp =
     (None, line_mdp\<lparr>reach := [[True, True], [True, True], [True, False]],
                     S_hat := [[True, False], [False, False], [False, False]]\<rparr>)"
  by (simp add: compute_S_hat_def line_mdp_def line_graph_reach line_graph_return iand_def
        nrows_def ncols_def)

lemma line_mdp_rect: "rect 3 2 (reach line_mdp)" "rect 3 2 (S_hat line_mdp)"
  by (simp_all add: rect_def line_mdp_def np_empty_def seed_node0_def upt_rec)

text \<open>
  C1: whenever \<open>compute_S_hat\<close> returns, on an object whose \<open>reach\<close> and
  \<open>S_hat\<close> have the same shape (the spec's (num_nodes, max_out_degree + 1)), every
  cell that is true in \<open>S_hat\<close> is true in \<open>reach\<close>. This holds for every
  graph, every seed list and every safety labelling.
\<close>

theorem subset_law:
  assumes "rect r c (reach s)" and "rect r c (S_hat s)"
    and "compute_S_hat st s = (None, s')"
  shows "\<forall>i j. cell (S_hat s') i j \<longrightarrow> cell (reach s') i j"
  using compute_S_hat_subset[OF assms] by blast

theorem subset_law_witness:
  "rect 3 2 (reach line_mdp) \<and> rect 3 2 (S_hat line_mdp) \<and>
   compute_S_hat no_store line_mdp =
     (None, line_mdp\<lparr>reach := [[True, True], [True, True], [True, False]],
                     S_hat := [[True, False], [False, False], [False, False]]\<rparr>) \<and>
   cell [[True, False], [False, False], [False, False]] 0 0 \<and>
   cell [[True, True], [True, True], [True, False]] 0 0"
proof -
  have c: "cell [[True, False], [False, False], [False, False]] 0 0"
    by (simp add: cell_def)
  from subset_law[OF line_mdp_rect line_mdp_compute] c
  have "cell [[True, True], [True, True], [True, False]] 0 0" by simp
  with c line_mdp_rect line_mdp_compute show ?thesis by simp
qed

text \<open>
  An object with an empty seed list, as \<open>SafeMDP.__init__\<close> builds it from an
  all-false initial matrix when the memory of \<open>np.empty\<close> holds ones.
\<close>

definition unseeded_mdp :: "nat safe_mdp" where
  "unseeded_mdp =
     \<lparr>beta = 2, h = 0, L = 0, gp = \<lparr>gp_X = [], gp_Y = []\<rparr>,
      graph = line_graph, graph_reverse = reverse no_store line_graph,
      reach = [[True, True], [True, True], [True, True]],
      G = [[True, True], [True, True], [True, True]],
      S_hat = [[False, False], [False, False], [False, False]],
      S_hat0 = [[False, False], [False, False], [False, False]],
      initial_nodes = []\<rparr>"

lemma unseeded_mdp_init:
  "SafeMDP_init no_store line_graph \<lparr>gp_X = [], gp_Y = []\<rparr>
     [[False, False], [False, False], [False, False]] 0 0 2
     (\<lambda>_ _. True) (\<lambda>_ _. True) = Inr unseeded_mdp"
  by (simp add: SafeMDP_init_def max_out_degree_def out_degree_def column0_nonzero_def
        line_graph_def unseeded_mdp_def np_empty_def upt_rec)

text \<open>
  C2, as the code has it: with an empty seed list \<open>compute_S_hat\<close> raises the
  empty-seed error from the entry check of \<open>reachable_set\<close>, before any traversal;
  \<open>S_hat\<close> and every other field are as before the call, and \<open>reach\<close> has been
  cleared to false by the assignment that precedes the check.
\<close>

theorem empty_seed_failure:
  "initial_nodes s = [] \<Longrightarrow>
     compute_S_hat st s = (Some AttributeError, s\<lparr>reach := fill_false (reach s)\<rparr>)"
  by (simp add: compute_S_hat_def reachable_set_def reachable_run_def)

theorem empty_seed_failure_witness:
  "initial_nodes unseeded_mdp = [] \<and>
   compute_S_hat no_store unseeded_mdp =
     (Some AttributeError,
      unseeded_mdp\<lparr>reach := [[False, False], [False, False], [False, False]]\<rparr>)"
proof -
  have e: "initial_nodes unseeded_mdp = []" by (simp add: unseeded_mdp_def)
  have "fill_false (reach unseeded_mdp) = [[False, False], [False, False], [False, False]]"
    by (simp add: unseeded_mdp_def fill_false_def)
  with empty_seed_failure[OF e, of no_store] e show ?thesis by simp
qed

text \<open>
  C2 as stated fails: the call raises, but \<open>reach\<close> is not left with its pre-call
  contents.
\<close>

theorem empty_seed_reach_cleared:
  "fst (compute_S_hat no_store unseeded_mdp) = Some AttributeError \<and>
   reach (snd (compute_S_hat no_store unseeded_mdp)) \<noteq> reach unseeded_mdp"
  by (simp add: compute_S_hat_def reachable_set_def reachable_run_def unseeded_mdp_def
        fill_false_def)

section \<open>The frozen seed list\<close>

text \<open>
  What the constructor establishes: \<open>reach\<close> has the shape (num_nodes,
  max_out_degree + 1), \<open>S_hat\<close> is the initial matrix, and the seed list has no
  repetitions and indexes rows of that matrix.
\<close>

lemma np_empty_rect: "rect r c (np_empty r c junk)"
  by (simp add: rect_def np_empty_def list_all_iff)

lemma SafeMDP_init_shape:
  assumes "SafeMDP_init st g gp0 m h0 L0 beta0 junk1 junk2 = Inr s"
  shows "\<exists>d. max_out_degree g = Inr d \<and> rect (length (nodes g)) (d + 1) (reach s) \<and>
           S_hat s = m \<and> graph s = g \<and> graph_reverse s = reverse st g"
  using assms
  by (auto simp: SafeMDP_init_def np_empty_rect split: sum.splits)

lemma SafeMDP_init_seeds:
  assumes "SafeMDP_init st g gp0 m h0 L0 beta0 junk1 junk2 = Inr s"
  shows "distinct (initial_nodes s) \<and> (\<forall>n \<in> set (initial_nodes s). n < length m)"
  using assms
  by (auto simp: SafeMDP_init_def column0_nonzero_def split: sum.splits if_splits)






section \<open>Linking the graph to a safety array\<close>







section \<open>Correctness of the traversals\<close>

subsection \<open>The effect of one edge visit\<close>

lemma shape_lengths:
  assumes "map length v = replicate r c"
  shows "length v = r" and "i < r \<Longrightarrow> length (v ! i) = c"
proof -
  from assms have "length (map length v) = r" by simp
  then show l: "length v = r" by simp
  assume "i < r"
  with l have "map length v ! i = length (v ! i)" by simp
  with assms \<open>i < r\<close> show "length (v ! i) = c" by simp
qed

lemma mget_cell:
  "map length v = replicate r c \<Longrightarrow> i < r \<Longrightarrow> j < c \<Longrightarrow> mget v i j = Inr (cell v i j)"
  by (simp add: mget_def cell_def shape_lengths)

lemma cell_mput_in:
  "map length v = replicate r c \<Longrightarrow> i < r \<Longrightarrow> j < c \<Longrightarrow>
     cell (mput v i j True) k l \<longleftrightarrow> cell v k l \<or> (k = i \<and> l = j)"
  by (auto simp: cell_mput shape_lengths)

lemma cell_bounds:
  "map length v = replicate r c \<Longrightarrow> cell v i j \<Longrightarrow> i < r \<and> j < c"
  using shape_lengths(1)[of v r c] shape_lengths(2)[of v r c i] by (auto simp: cell_def)

lemma visit_edge_effect:
  assumes sh: "map length v = replicate r c" and x: "x < r" and a: "a < c" and y: "y < r" and c: "0 < c"
  shows "\<exists>v' stk' tr'. visit_edge x a sf y (v, stk, tr) = (None, (v', stk', tr')) \<and>
           map length v' = replicate r c \<and>
           (\<forall>i j. cell v' i j \<longleftrightarrow>
              cell v i j \<or> (\<not> cell v x a \<and> sf \<and> (i = x \<and> j = a \<or> i = y \<and> j = 0))) \<and>
           set stk \<subseteq> set stk' \<and>
           set stk' \<subseteq> set stk \<union> (if \<not> cell v x a \<and> sf then {y} else {}) \<and>
           (\<not> cell v x a \<and> sf \<and> \<not> cell v y 0 \<and> a \<noteq> 0 \<longrightarrow> y \<in> set stk')"
proof (cases "\<not> cell v x a \<and> sf")
  case False
  then have "visit_edge x a sf y (v, stk, tr) = (None, (v, stk, tr))"
    by (auto simp: visit_edge_def mget_cell[OF sh x a])
  with False sh show ?thesis by auto
next
  case True
  let ?v1 = "mput v x a True"
  have sh1: "map length ?v1 = replicate r c" using sh by (simp add: map_length_mput)
  have c1: "\<And>i j. cell ?v1 i j \<longleftrightarrow> cell v i j \<or> (i = x \<and> j = a)"
    using cell_mput_in[OF sh x a] by simp
  show ?thesis
  proof (cases "cell ?v1 y 0")
    case True
    with \<open>\<not> cell v x a \<and> sf\<close>
    have "visit_edge x a sf y (v, stk, tr) = (None, (?v1, stk, tr @ [Mark x a]))"
      by (simp add: visit_edge_def mget_cell[OF sh x a] mget_cell[OF sh1 y c])
    moreover have "\<forall>i j. cell ?v1 i j \<longleftrightarrow>
        cell v i j \<or> (\<not> cell v x a \<and> sf \<and> (i = x \<and> j = a \<or> i = y \<and> j = 0))"
      using True \<open>\<not> cell v x a \<and> sf\<close> c1 by auto
    moreover have "\<not> (\<not> cell v y 0 \<and> a \<noteq> 0)" using True c1 by auto
    ultimately show ?thesis using sh1 \<open>\<not> cell v x a \<and> sf\<close> by auto
  next
    case False
    let ?v2 = "mput ?v1 y 0 True"
    have sh2: "map length ?v2 = replicate r c" using sh1 by (simp add: map_length_mput)
    have c2: "\<And>i j. cell ?v2 i j \<longleftrightarrow> cell ?v1 i j \<or> (i = y \<and> j = 0)"
      using cell_mput_in[OF sh1 y c] by simp
    from False \<open>\<not> cell v x a \<and> sf\<close>
    have "visit_edge x a sf y (v, stk, tr) =
            (None, (?v2, stk @ [y], tr @ [Mark x a, Push y, Mark y 0]))"
      by (simp add: visit_edge_def mget_cell[OF sh x a] mget_cell[OF sh1 y c])
    moreover have "\<forall>i j. cell ?v2 i j \<longleftrightarrow>
        cell v i j \<or> (\<not> cell v x a \<and> sf \<and> (i = x \<and> j = a \<or> i = y \<and> j = 0))"
      using \<open>\<not> cell v x a \<and> sf\<close> c1 c2 by auto
    ultimately show ?thesis using sh2 \<open>\<not> cell v x a \<and> sf\<close> by auto
  qed
qed

subsection \<open>Tasks that fit the matrix\<close>

text \<open>The tasks of a node: those its task list holds.\<close>

definition tasks_of :: "(nat \<Rightarrow> error + (error + task) list) \<Rightarrow> nat \<Rightarrow> task set" where
  "tasks_of T u = (case T u of Inl err \<Rightarrow> {} | Inr ts \<Rightarrow> {t. Inr t \<in> set ts})"

text \<open>
  A task fits a matrix of \<open>r\<close> rows and \<open>c\<close> columns over the nodes \<open>N\<close> when
  its cell is in range and its target is a node; a task function fits when the nodes
  index the rows, column 0 exists, and every node has a list of fitting tasks.
\<close>

definition task_ok :: "nat set \<Rightarrow> nat \<Rightarrow> nat \<Rightarrow> task \<Rightarrow> bool" where
  "task_ok N r c t = (case t of (x, a, sf, y) \<Rightarrow> x < r \<and> a < c \<and> y \<in> N)"

definition fits :: "(nat \<Rightarrow> error + (error + task) list) \<Rightarrow> nat set \<Rightarrow> nat \<Rightarrow> nat \<Rightarrow> bool" where
  "fits T N r c \<longleftrightarrow>
     0 < c \<and> (\<forall>u \<in> N. u < r) \<and>
     (\<forall>u \<in> N. \<exists>ts. T u = Inr (map Inr ts) \<and> (\<forall>t \<in> set ts. task_ok N r c t))"

lemma tasks_of_Inr: "T u = Inr (map Inr ts) \<Longrightarrow> tasks_of T u = set ts"
  by (auto simp: tasks_of_def)

lemma fitsD:
  assumes "fits T N r c" "u \<in> N"
  shows "\<exists>ts. T u = Inr (map Inr ts) \<and> (\<forall>t \<in> set ts. task_ok N r c t)"
  using assms unfolding fits_def by blast

lemma run_tasks_ok:
  assumes "0 < c" "\<forall>u \<in> N. u < r"
    and "\<forall>t \<in> set ts. task_ok N r c t"
    and "map length v = replicate r c" "set stk \<subseteq> N"
  shows "\<exists>v' stk' tr'. run_tasks (map Inr ts) (v, stk, tr) = (None, (v', stk', tr')) \<and>
           map length v' = replicate r c \<and> set stk' \<subseteq> N"
  using assms(3-5)
proof (induction ts arbitrary: v stk tr)
  case Nil
  then show ?case by simp
next
  case (Cons t ts)
  obtain x a sf y where t: "t = (x, a, sf, y)" by (cases t)
  with Cons.prems(1) have b: "x < r" "a < c" "y \<in> N" by (simp_all add: task_ok_def)
  with assms(2) have "y < r" by blast
  from visit_edge_effect[OF Cons.prems(2) b(1,2) \<open>y < r\<close> assms(1), of sf stk tr]
  obtain v1 stk1 tr1 where v1: "visit_edge x a sf y (v, stk, tr) = (None, (v1, stk1, tr1))"
    "map length v1 = replicate r c"
    "set stk1 \<subseteq> set stk \<union> (if \<not> cell v x a \<and> sf then {y} else {})"
    by blast
  from v1(3) Cons.prems(3) b(3) have s1: "set stk1 \<subseteq> N" by (auto split: if_splits)
  from Cons.prems(1) have "\<forall>t \<in> set ts. task_ok N r c t" by simp
  from Cons.IH[OF this v1(2) s1, of tr1]
  obtain v' stk' tr' where "run_tasks (map Inr ts) (v1, stk1, tr1) = (None, (v', stk', tr'))"
    "map length v' = replicate r c" "set stk' \<subseteq> N" by blast
  with v1(1) t show ?case by simp
qed

lemma task_loop_ok:
  "fits T N r c \<Longrightarrow> map length (fst s) = replicate r c \<Longrightarrow> set (fst (snd s)) \<subseteq> N \<Longrightarrow>
     \<exists>v' tr'. task_loop T s = (None, (v', [], tr')) \<and> map length v' = replicate r c"
proof (induction T s rule: task_loop.induct)
  case (1 T visited tr)
  then show ?case by simp
next
  case (2 T visited node stack tr)
  from "2.prems" have f: "fits T N r c" and n: "node \<in> N" and st: "set stack \<subseteq> N"
    and sh: "map length visited = replicate r c" by simp_all
  from f have c: "0 < c" and N: "\<forall>u \<in> N. u < r" by (simp_all add: fits_def)
  from fitsD[OF f n] obtain ts where ts: "T node = Inr (map Inr ts)"
    "\<forall>t \<in> set ts. task_ok N r c t" by blast
  from run_tasks_ok[OF c N ts(2) sh st, of tr]
  obtain v1 stk1 tr1 where r1: "run_tasks (map Inr ts) (visited, stack, tr) = (None, (v1, stk1, tr1))"
    "map length v1 = replicate r c" "set stk1 \<subseteq> N" by blast
  from "2.IH"[OF ts(1) r1(1)[symmetric] refl f] r1(2,3)
  obtain v' tr' where "task_loop T (v1, stk1, tr1) = (None, (v', [], tr'))"
    "map length v' = replicate r c" by auto
  with ts(1) r1(1) show ?case by simp
qed

subsection \<open>The invariant of the loops\<close>

text \<open>
  The successor relation of a task function (a safe task of \<open>u\<close> leads to its target)
  and the nodes that can be reached from a seed set along it.
\<close>

definition rel_of :: "(nat \<Rightarrow> error + (error + task) list) \<Rightarrow> (nat \<times> nat) set" where
  "rel_of T = {(u, y). \<exists>x a. (x, a, True, y) \<in> tasks_of T u}"

definition closure :: "(nat \<Rightarrow> error + (error + task) list) \<Rightarrow> nat set \<Rightarrow> nat set" where
  "closure T S = (rel_of T)\<^sup>* `` S"

text \<open>
  The two conditions of the spec's data model on which the result of a traversal does
  not depend on the order of the edges: actions start at 1 (column 0 is the node itself),
  and a cell \<open>(x, a)\<close> belongs to one target only.
\<close>

definition act_pos :: "(nat \<Rightarrow> error + (error + task) list) \<Rightarrow> nat set \<Rightarrow> bool" where
  "act_pos T N \<longleftrightarrow> (\<forall>u \<in> N. \<forall>x a sf y. (x, a, sf, y) \<in> tasks_of T u \<longrightarrow> 1 \<le> a)"

definition determ :: "(nat \<Rightarrow> error + (error + task) list) \<Rightarrow> nat set \<Rightarrow> bool" where
  "determ T N \<longleftrightarrow>
     (\<forall>u \<in> N. \<forall>u' \<in> N. \<forall>x a sf y sf' y'.
        (x, a, sf, y) \<in> tasks_of T u \<and> (x, a, sf', y') \<in> tasks_of T u' \<longrightarrow> y = y')"

text \<open>
  The invariant of the while-loop, in parts: the nodes on the stack are marked; the seeds
  are marked; a marked node is a node that can be reached from the seeds; an action cell
  that is set belongs to a safe task of a marked node; the target of a task whose cell is
  set is marked; and every safe task of a marked node that has left the stack has its
  cell set and its target marked, up to the tasks \<open>todo\<close> of the node in progress.
\<close>

definition inv_stack :: "matrix \<Rightarrow> nat list \<Rightarrow> bool" where
  "inv_stack v stk \<longleftrightarrow> (\<forall>z \<in> set stk. cell v z 0)"

definition inv_seeds :: "matrix \<Rightarrow> nat set \<Rightarrow> bool" where
  "inv_seeds v S \<longleftrightarrow> (\<forall>z \<in> S. cell v z 0)"

definition inv_sound :: "(nat \<Rightarrow> error + (error + task) list) \<Rightarrow> nat set \<Rightarrow> nat set \<Rightarrow> matrix \<Rightarrow> bool" where
  "inv_sound T N S v \<longleftrightarrow> (\<forall>z. cell v z 0 \<longrightarrow> z \<in> closure T S \<and> z \<in> N)"

definition inv_act :: "(nat \<Rightarrow> error + (error + task) list) \<Rightarrow> matrix \<Rightarrow> bool" where
  "inv_act T v \<longleftrightarrow>
     (\<forall>x a. 1 \<le> a \<and> cell v x a \<longrightarrow> (\<exists>u y. cell v u 0 \<and> (x, a, True, y) \<in> tasks_of T u))"

definition inv_target :: "(nat \<Rightarrow> error + (error + task) list) \<Rightarrow> nat set \<Rightarrow> matrix \<Rightarrow> bool" where
  "inv_target T N v \<longleftrightarrow>
     (\<forall>u \<in> N. \<forall>x a sf y. (x, a, sf, y) \<in> tasks_of T u \<and> cell v x a \<longrightarrow> cell v y 0)"

definition inv_closed ::
  "(nat \<Rightarrow> error + (error + task) list) \<Rightarrow> (nat \<times> task) set \<Rightarrow> matrix \<Rightarrow> nat list \<Rightarrow> bool" where
  "inv_closed T todo v stk \<longleftrightarrow>
     (\<forall>u x a sf y. cell v u 0 \<and> u \<notin> set stk \<and> (x, a, sf, y) \<in> tasks_of T u \<and>
         (u, (x, a, sf, y)) \<notin> todo \<and> sf \<longrightarrow> cell v x a \<and> cell v y 0)"

definition binv ::
  "(nat \<Rightarrow> error + (error + task) list) \<Rightarrow> nat set \<Rightarrow> nat \<Rightarrow> nat \<Rightarrow> nat set \<Rightarrow>
   (nat \<times> task) set \<Rightarrow> matrix \<Rightarrow> nat list \<Rightarrow> bool" where
  "binv T N r c S todo v stk \<longleftrightarrow>
     map length v = replicate r c \<and> inv_stack v stk \<and> inv_seeds v S \<and> inv_sound T N S v \<and>
     inv_act T v \<and> inv_target T N v \<and> inv_closed T todo v stk"

lemma closure_step:
  "u \<in> closure T S \<Longrightarrow> (x, a, True, y) \<in> tasks_of T u \<Longrightarrow> y \<in> closure T S"
  unfolding closure_def rel_of_def
  by (auto intro: rtrancl_into_rtrancl)

lemma binv_step:
  assumes f: "fits T N r c" and ap: "act_pos T N" and dt: "determ T N"
    and inv: "binv T N r c S ({u} \<times> insert (x, a, sf, y) D) v stk"
    and u: "u \<in> N" "cell v u 0" and t: "(x, a, sf, y) \<in> tasks_of T u"
  shows "\<exists>v' stk' tr'. visit_edge x a sf y (v, stk, tr) = (None, (v', stk', tr')) \<and>
           binv T N r c S ({u} \<times> D) v' stk' \<and> cell v' u 0"
proof -
  from fitsD[OF f u(1)] obtain ts where ts: "T u = Inr (map Inr ts)"
    "\<forall>t \<in> set ts. task_ok N r c t" by blast
  from t ts have "task_ok N r c (x, a, sf, y)" by (simp add: tasks_of_Inr)
  then have b: "x < r" "a < c" "y \<in> N" by (simp_all add: task_ok_def)
  from f b(3) have yr: "y < r" and c0: "0 < c" by (simp_all add: fits_def)
  from ap u(1) t have a1: "1 \<le> a" unfolding act_pos_def by blast
  from inv have sh: "map length v = replicate r c"
    and k2: "inv_stack v stk" and k3: "inv_seeds v S" and k4: "inv_sound T N S v"
    and k5: "inv_act T v" and k6: "inv_target T N v"
    and k7: "inv_closed T ({u} \<times> insert (x, a, sf, y) D) v stk"
    by (simp_all add: binv_def)
  note i2 = k2[unfolded inv_stack_def] and i3 = k3[unfolded inv_seeds_def]
    and i4 = k4[unfolded inv_sound_def] and i5 = k5[unfolded inv_act_def]
    and i6 = k6[unfolded inv_target_def] and i7 = k7[unfolded inv_closed_def]
  define fire where "fire \<longleftrightarrow> \<not> cell v x a \<and> sf"
  from visit_edge_effect[OF sh b(1,2) yr c0, of sf stk tr]
  obtain v' stk' tr' where ve: "visit_edge x a sf y (v, stk, tr) = (None, (v', stk', tr'))"
    and sh': "map length v' = replicate r c"
    and cs: "\<forall>i j. cell v' i j \<longleftrightarrow> cell v i j \<or> (fire \<and> (i = x \<and> j = a \<or> i = y \<and> j = 0))"
    and s1: "set stk \<subseteq> set stk'"
    and s2: "set stk' \<subseteq> set stk \<union> (if fire then {y} else {})"
    and s3: "fire \<and> \<not> cell v y 0 \<and> a \<noteq> 0 \<longrightarrow> y \<in> set stk'"
    unfolding fire_def by blast
  have mono: "\<And>i j. cell v i j \<Longrightarrow> cell v' i j" using cs by blast
  have firey: "fire \<Longrightarrow> cell v' y 0" using cs by blast
  have firex: "fire \<Longrightarrow> cell v' x a" using cs by blast
  have fsf: "fire \<Longrightarrow> sf" by (simp add: fire_def)
  have new0: "\<And>z. cell v' z 0 \<Longrightarrow> \<not> cell v z 0 \<Longrightarrow> fire \<and> z = y"
    using cs a1 by auto
  have newa: "\<And>i j. 1 \<le> j \<Longrightarrow> cell v' i j \<Longrightarrow> \<not> cell v i j \<Longrightarrow> fire \<and> i = x \<and> j = a"
    using cs by auto
  have ucl: "u \<in> closure T S" using i4 u(2) by blast
  have ycl: "fire \<Longrightarrow> y \<in> closure T S"
    using closure_step[OF ucl, of x a y] t fsf by auto
  have j2: "\<forall>z \<in> set stk'. cell v' z 0"
  proof
    fix z assume "z \<in> set stk'"
    with s2 have "z \<in> set stk \<or> (fire \<and> z = y)" by (auto split: if_splits)
    then show "cell v' z 0" using i2 mono firey by blast
  qed
  have j3: "\<forall>z \<in> S. cell v' z 0" using i3 mono by blast
  have j4: "\<forall>z. cell v' z 0 \<longrightarrow> z \<in> closure T S \<and> z \<in> N"
  proof (intro allI impI)
    fix z assume z: "cell v' z 0"
    show "z \<in> closure T S \<and> z \<in> N"
    proof (cases "cell v z 0")
      case True
      then show ?thesis using i4 by blast
    next
      case False
      from new0[OF z False] have "fire" "z = y" by simp_all
      then show ?thesis using ycl b(3) by simp
    qed
  qed
  have j5: "\<forall>x2 a2. 1 \<le> a2 \<and> cell v' x2 a2 \<longrightarrow>
      (\<exists>u2 y2. cell v' u2 0 \<and> (x2, a2, True, y2) \<in> tasks_of T u2)"
  proof (intro allI impI)
    fix x2 a2 assume h2: "1 \<le> a2 \<and> cell v' x2 a2"
    show "\<exists>u2 y2. cell v' u2 0 \<and> (x2, a2, True, y2) \<in> tasks_of T u2"
    proof (cases "cell v x2 a2")
      case True
      with i5 h2 obtain u2 y2 where "cell v u2 0" "(x2, a2, True, y2) \<in> tasks_of T u2" by blast
      then show ?thesis using mono by blast
    next
      case False
      from h2 have "1 \<le> a2" "cell v' x2 a2" by simp_all
      from newa[OF this False] have "fire" "x2 = x" "a2 = a" by simp_all
      with t fsf have "(x2, a2, True, y) \<in> tasks_of T u" by simp
      then show ?thesis using mono[OF u(2)] by blast
    qed
  qed
  have j6: "\<forall>u2 \<in> N. \<forall>x2 a2 sf2 y2. (x2, a2, sf2, y2) \<in> tasks_of T u2 \<and> cell v' x2 a2 \<longrightarrow> cell v' y2 0"
  proof (intro ballI allI impI)
    fix u2 x2 a2 sf2 y2
    assume u2: "u2 \<in> N" and h2: "(x2, a2, sf2, y2) \<in> tasks_of T u2 \<and> cell v' x2 a2"
    from ap u2 h2 have a2: "1 \<le> a2" unfolding act_pos_def by blast
    show "cell v' y2 0"
    proof (cases "cell v x2 a2")
      case True
      with i6 u2 h2 have "cell v y2 0" by blast
      then show ?thesis by (rule mono)
    next
      case False
      from h2 have "cell v' x2 a2" by simp
      from newa[OF a2 this False] have fr: "fire" and e: "x2 = x" "a2 = a" by simp_all
      from dt u2 u(1) h2 t e have "y2 = y" unfolding determ_def by blast
      then show ?thesis using firey[OF fr] by simp
    qed
  qed
  have j7: "\<forall>u2 x2 a2 sf2 y2. cell v' u2 0 \<and> u2 \<notin> set stk' \<and> (x2, a2, sf2, y2) \<in> tasks_of T u2 \<and>
         (u2, (x2, a2, sf2, y2)) \<notin> {u} \<times> D \<and> sf2 \<longrightarrow> cell v' x2 a2 \<and> cell v' y2 0"
  proof (intro allI impI)
    fix u2 x2 a2 sf2 y2
    assume h2: "cell v' u2 0 \<and> u2 \<notin> set stk' \<and> (x2, a2, sf2, y2) \<in> tasks_of T u2 \<and>
         (u2, (x2, a2, sf2, y2)) \<notin> {u} \<times> D \<and> sf2"
    then have ns: "u2 \<notin> set stk" using s1 by blast
    have old: "cell v u2 0"
    proof (rule ccontr)
      assume n: "\<not> cell v u2 0"
      from h2 have "cell v' u2 0" by simp
      from new0[OF this n] have fr: "fire" and e: "u2 = y" by simp_all
      from n e have "\<not> cell v y 0" by simp
      with s3 fr a1 have "y \<in> set stk'" by simp
      with h2 e show False by simp
    qed
    show "cell v' x2 a2 \<and> cell v' y2 0"
    proof (cases "(u2, (x2, a2, sf2, y2)) \<in> {u} \<times> insert (x, a, sf, y) D")
      case False
      with i7 old ns h2 have "cell v x2 a2 \<and> cell v y2 0" by blast
      then show ?thesis using mono by blast
    next
      case True
      with h2 have e: "u2 = u" "x2 = x" "a2 = a" "sf2 = sf" "y2 = y" by auto
      show ?thesis
      proof (cases fire)
        case True
        then show ?thesis using e firex firey by simp
      next
        case False
        with h2 e have cx: "cell v x a" by (simp add: fire_def)
        with i6 u(1) t have "cell v y 0" by blast
        with cx e show ?thesis using mono by blast
      qed
    qed
  qed
  have "binv T N r c S ({u} \<times> D) v' stk'"
    unfolding binv_def inv_stack_def inv_seeds_def inv_sound_def inv_act_def inv_target_def
      inv_closed_def
    using sh' j2 j3 j4 j5 j6 j7 by (intro conjI)
  then show ?thesis using ve mono[OF u(2)] by blast
qed

lemma closure_seed: "z \<in> S \<Longrightarrow> z \<in> closure T S"
  by (auto simp: closure_def)

lemma binv_run:
  assumes f: "fits T N r c" and ap: "act_pos T N" and dt: "determ T N"
    and u: "u \<in> N" and ts0: "set ts \<subseteq> tasks_of T u"
    and inv: "binv T N r c S ({u} \<times> set ts) v stk" and cu: "cell v u 0"
  shows "\<exists>v' stk' tr'. run_tasks (map Inr ts) (v, stk, tr) = (None, (v', stk', tr')) \<and>
           binv T N r c S {} v' stk'"
  using ts0 inv cu
proof (induction ts arbitrary: v stk tr)
  case Nil
  then show ?case by simp
next
  case (Cons t ts)
  obtain x a sf y where t: "t = (x, a, sf, y)" by (cases t)
  from Cons.prems(1) t have tin: "(x, a, sf, y) \<in> tasks_of T u" and sub: "set ts \<subseteq> tasks_of T u"
    by simp_all
  from Cons.prems(2) t have "binv T N r c S ({u} \<times> insert (x, a, sf, y) (set ts)) v stk" by simp
  from binv_step[OF f ap dt this u Cons.prems(3) tin, of tr]
  obtain v1 stk1 tr1 where s1: "visit_edge x a sf y (v, stk, tr) = (None, (v1, stk1, tr1))"
    "binv T N r c S ({u} \<times> set ts) v1 stk1" "cell v1 u 0" by blast
  from Cons.IH[OF sub s1(2,3), of tr1]
  obtain v' stk' tr' where "run_tasks (map Inr ts) (v1, stk1, tr1) = (None, (v', stk', tr'))"
    "binv T N r c S {} v' stk'" by blast
  with s1(1) t show ?case by simp
qed

lemma binv_pop:
  assumes "binv T N r c S {} v (u # stk)"
  shows "binv T N r c S ({u} \<times> tasks_of T u) v stk \<and> cell v u 0 \<and> u \<in> N"
proof -
  from assms have sh: "map length v = replicate r c"
    and k2: "inv_stack v (u # stk)" and k3: "inv_seeds v S" and k4: "inv_sound T N S v"
    and k5: "inv_act T v" and k6: "inv_target T N v" and k7: "inv_closed T {} v (u # stk)"
    by (simp_all add: binv_def)
  from k2 have cu: "cell v u 0" and j2: "inv_stack v stk" by (simp_all add: inv_stack_def)
  from k4 cu have uN: "u \<in> N" by (simp add: inv_sound_def)
  have j7: "inv_closed T ({u} \<times> tasks_of T u) v stk"
    unfolding inv_closed_def
  proof (intro allI impI)
    fix u2 x2 a2 sf2 y2
    assume h2: "cell v u2 0 \<and> u2 \<notin> set stk \<and> (x2, a2, sf2, y2) \<in> tasks_of T u2 \<and>
         (u2, (x2, a2, sf2, y2)) \<notin> {u} \<times> tasks_of T u \<and> sf2"
    have "u2 \<noteq> u"
    proof
      assume "u2 = u"
      with h2 have "(u2, (x2, a2, sf2, y2)) \<in> {u} \<times> tasks_of T u" by auto
      with h2 show False by blast
    qed
    with h2 have "cell v u2 0 \<and> u2 \<notin> set (u # stk) \<and> (x2, a2, sf2, y2) \<in> tasks_of T u2 \<and>
         (u2, (x2, a2, sf2, y2)) \<notin> {} \<and> sf2" by auto
    then show "cell v x2 a2 \<and> cell v y2 0"
      by (rule k7[unfolded inv_closed_def, rule_format])
  qed
  show ?thesis using sh j2 k3 k4 k5 k6 j7 cu uN by (simp add: binv_def)
qed

lemma binv_loop:
  "fits T N r c \<Longrightarrow> act_pos T N \<Longrightarrow> determ T N \<Longrightarrow>
   binv T N r c S {} (fst s) (fst (snd s)) \<Longrightarrow>
     \<exists>v' tr'. task_loop T s = (None, (v', [], tr')) \<and> binv T N r c S {} v' []"
proof (induction T s rule: task_loop.induct)
  case (1 T visited tr)
  then show ?case by simp
next
  case (2 T visited node stack tr)
  from "2.prems" have f: "fits T N r c" and ap: "act_pos T N" and dt: "determ T N"
    and inv: "binv T N r c S {} visited (node # stack)" by simp_all
  from binv_pop[OF inv] have p: "binv T N r c S ({node} \<times> tasks_of T node) visited stack"
    and cu: "cell visited node 0" and n: "node \<in> N" by simp_all
  from fitsD[OF f n] obtain ts where ts: "T node = Inr (map Inr ts)" by blast
  then have to: "tasks_of T node = set ts" by (rule tasks_of_Inr)
  have sub: "set ts \<subseteq> tasks_of T node" using to by simp
  have p': "binv T N r c S ({node} \<times> set ts) visited stack" using p to by simp
  from binv_run[OF f ap dt n sub p' cu, of tr]
  obtain v1 stk1 tr1 where r1: "run_tasks (map Inr ts) (visited, stack, tr) = (None, (v1, stk1, tr1))"
    "binv T N r c S {} v1 stk1" by blast
  from "2.IH"[OF ts r1(1)[symmetric] refl f ap dt] r1(2)
  obtain v' tr' where "task_loop T (v1, stk1, tr1) = (None, (v', [], tr'))"
    "binv T N r c S {} v' []" by auto
  with ts r1(1) show ?case by simp
qed

lemma binv_final:
  assumes "binv T N r c S {} v []"
  shows "(\<forall>z. cell v z 0 \<longleftrightarrow> z \<in> closure T S) \<and>
         (\<forall>x a. 1 \<le> a \<longrightarrow>
            (cell v x a \<longleftrightarrow> (\<exists>u y. u \<in> closure T S \<and> (x, a, True, y) \<in> tasks_of T u)))"
proof -
  from assms have k3: "inv_seeds v S" and k4: "inv_sound T N S v"
    and k5: "inv_act T v" and k7: "inv_closed T {} v []"
    by (simp_all add: binv_def)
  have closed: "cell v x a \<and> cell v y 0"
    if "cell v u 0" "(x, a, True, y) \<in> tasks_of T u" for u x a y
  proof -
    from that have "cell v u 0 \<and> u \<notin> set [] \<and> (x, a, True, y) \<in> tasks_of T u \<and>
         (u, (x, a, True, y)) \<notin> {} \<and> True" by simp
    then show ?thesis by (rule k7[unfolded inv_closed_def, rule_format])
  qed
  have sound: "\<And>z. cell v z 0 \<Longrightarrow> z \<in> closure T S" using k4 by (simp add: inv_sound_def)
  have compl: "cell v z 0" if "z \<in> closure T S" for z
  proof -
    from that obtain s where s: "s \<in> S" "(s, z) \<in> (rel_of T)\<^sup>*" by (auto simp: closure_def)
    from s(2) show ?thesis
    proof (induction rule: rtrancl_induct)
      case base
      from k3 s(1) show ?case by (simp add: inv_seeds_def)
    next
      case (step z1 z2)
      from step(2) obtain x a where "(x, a, True, z2) \<in> tasks_of T z1" by (auto simp: rel_of_def)
      from closed[OF step(3) this] show ?case by simp
    qed
  qed
  have act: "cell v x a \<longleftrightarrow> (\<exists>u y. u \<in> closure T S \<and> (x, a, True, y) \<in> tasks_of T u)"
    if "1 \<le> a" for x a
  proof
    assume "cell v x a"
    with k5 that obtain u y where "cell v u 0" "(x, a, True, y) \<in> tasks_of T u"
      unfolding inv_act_def by blast
    then show "\<exists>u y. u \<in> closure T S \<and> (x, a, True, y) \<in> tasks_of T u" using sound by blast
  next
    assume "\<exists>u y. u \<in> closure T S \<and> (x, a, True, y) \<in> tasks_of T u"
    then obtain u y where "u \<in> closure T S" "(x, a, True, y) \<in> tasks_of T u" by blast
    with compl closed show "cell v x a" by blast
  qed
  have "\<forall>z. cell v z 0 \<longleftrightarrow> z \<in> closure T S" using sound compl by blast
  moreover have "\<forall>x a. 1 \<le> a \<longrightarrow>
            (cell v x a \<longleftrightarrow> (\<exists>u y. u \<in> closure T S \<and> (x, a, True, y) \<in> tasks_of T u))"
    using act by simp
  ultimately show ?thesis by (rule conjI)
qed

lemma fold_mput_cells:
  assumes "map length m = replicate r c" "0 < c" "\<forall>n \<in> set ns. n < r"
  shows "cell (fold (\<lambda>n v. mput v n 0 True) ns m) i j \<longleftrightarrow> cell m i j \<or> (i \<in> set ns \<and> j = 0)"
  using assms(1,3)
proof (induction ns arbitrary: m)
  case Nil
  then show ?case by simp
next
  case (Cons n ns)
  have sh1: "map length (mput m n 0 True) = replicate r c"
    using Cons.prems(1) by (simp add: map_length_mput)
  from Cons.prems(2) have n: "n < r" and ns: "\<forall>n \<in> set ns. n < r" by simp_all
  from Cons.IH[OF sh1 ns] cell_mput_in[OF Cons.prems(1) n assms(2), of i j]
  show ?case by auto
qed

lemma seed_cells:
  assumes "map length m = replicate r c" "0 < c" "\<forall>n \<in> set ns. n < r"
  shows "\<exists>v. seed m ns = Inr v \<and> map length v = replicate r c \<and>
           (\<forall>i j. cell v i j \<longleftrightarrow> cell m i j \<or> (i \<in> set ns \<and> j = 0))"
proof -
  have "\<forall>n \<in> set ns. n < length m \<and> 0 < length (m ! n)"
  proof
    fix n assume "n \<in> set ns"
    with assms(3) have "n < r" by blast
    with shape_lengths(1)[OF assms(1)] shape_lengths(2)[OF assms(1), of n] assms(2) show "n < length m \<and> 0 < length (m ! n)"
      by simp
  qed
  then have "list_all (\<lambda>n. n < length m \<and> 0 < length (m ! n)) ns"
    by (simp add: list_all_iff)
  then have "seed m ns = Inr (fold (\<lambda>n v. mput v n 0 True) ns m)" by (simp add: seed_def)
  then show ?thesis using fold_mput_cells[OF assms] assms(1) by (simp add: fold_mput_shape)
qed

lemma binv_init:
  assumes f: "fits T N r c" and ap: "act_pos T N"
    and sh: "map length out = replicate r c" and em: "\<forall>i j. \<not> cell out i j"
    and ns: "set ns \<subseteq> N"
  shows "\<exists>v. seed out ns = Inr v \<and> binv T N r c (set ns) {} v ns"
proof -
  from f ns have c0: "0 < c" and nr: "\<forall>n \<in> set ns. n < r" by (auto simp: fits_def)
  from seed_cells[OF sh c0 nr] em obtain v where v: "seed out ns = Inr v"
    "map length v = replicate r c" "\<forall>i j. cell v i j \<longleftrightarrow> i \<in> set ns \<and> j = 0" by auto
  have "inv_stack v ns" "inv_seeds v (set ns)" using v(3) by (simp_all add: inv_stack_def inv_seeds_def)
  moreover have "inv_sound T N (set ns) v"
    using v(3) ns closure_seed[of _ "set ns" T] by (auto simp: inv_sound_def)
  moreover have "inv_act T v" using v(3) by (simp add: inv_act_def)
  moreover have "inv_target T N v"
    unfolding inv_target_def
  proof (intro ballI allI impI)
    fix u x a sf y assume "u \<in> N" "(x, a, sf, y) \<in> tasks_of T u \<and> cell v x a"
    with ap have "1 \<le> a" "cell v x a" unfolding act_pos_def by blast+
    with v(3) show "cell v y 0" by simp
  qed
  moreover have "inv_closed T {} v ns" using v(3) by (auto simp: inv_closed_def)
  ultimately show ?thesis using v(1,2) by (simp add: binv_def)
qed

lemma task_loop_marks:
  assumes f: "fits T N r c" and ap: "act_pos T N" and dt: "determ T N"
    and sh: "map length out = replicate r c" and em: "\<forall>i j. \<not> cell out i j"
    and ns: "set ns \<subseteq> N"
  shows "\<exists>v0 v' tr'. seed out ns = Inr v0 \<and> task_loop T (v0, ns, tr) = (None, (v', [], tr')) \<and>
           map length v' = replicate r c \<and>
           (\<forall>z. cell v' z 0 \<longleftrightarrow> z \<in> closure T (set ns)) \<and>
           (\<forall>x a. 1 \<le> a \<longrightarrow>
              (cell v' x a \<longleftrightarrow> (\<exists>u y. u \<in> closure T (set ns) \<and> (x, a, True, y) \<in> tasks_of T u)))"
proof -
  from binv_init[OF f ap sh em ns] obtain v0 where v0: "seed out ns = Inr v0"
    "binv T N r c (set ns) {} v0 ns" by blast
  from binv_loop[OF f ap dt, of "set ns" "(v0, ns, tr)"] v0(2)
  obtain v' tr' where l: "task_loop T (v0, ns, tr) = (None, (v', [], tr'))"
    "binv T N r c (set ns) {} v' []" by auto
  from l(2) have shp: "map length v' = replicate r c" by (simp add: binv_def)
  note fin = binv_final[OF l(2)]
  show ?thesis
    using v0(1) l(1) shp fin[THEN conjunct1] fin[THEN conjunct2]
    by (intro exI conjI)
qed

subsection \<open>Well-formed graphs\<close>

text \<open>
  A graph of the spec's data model, for matrices of \<open>r\<close> rows and \<open>c\<close> columns:
  column 0 exists, the nodes index the rows, every edge joins two nodes of the graph and
  has an action from 1 to \<open>c - 1\<close>, there is one edge per ordered pair of nodes (a
  DiGraph is no multigraph) and one edge per node and action.
\<close>

definition graph_ok :: "digraph \<Rightarrow> nat \<Rightarrow> nat \<Rightarrow> bool" where
  "graph_ok g r c \<longleftrightarrow>
     0 < c \<and>
     list_all (\<lambda>n. n < r) (nodes g) \<and>
     list_all (\<lambda>e. src e \<in> set (nodes g) \<and> dst e \<in> set (nodes g) \<and>
                    1 \<le> action e \<and> action e < c) (edges g) \<and>
     distinct (map (\<lambda>e. (src e, dst e)) (edges g)) \<and>
     distinct (map (\<lambda>e. (src e, action e)) (edges g))"

text \<open>
  \<open>rg\<close> has the nodes of \<open>g\<close> and, as edges, exactly the edges of \<open>g\<close> turned
  round, as \<open>graph.reverse()\<close> builds it.
\<close>

definition is_reverse :: "digraph \<Rightarrow> digraph \<Rightarrow> bool" where
  "is_reverse g rg \<longleftrightarrow>
     set (nodes rg) = set (nodes g) \<and>
     set (map (\<lambda>e. (src e, dst e)) (edges rg)) = set (map (\<lambda>e. (dst e, src e)) (edges g))"

lemma graph_okD:
  assumes "graph_ok g r c"
  shows "0 < c" and "n \<in> set (nodes g) \<Longrightarrow> n < r"
    and "e \<in> set (edges g) \<Longrightarrow>
           src e \<in> set (nodes g) \<and> dst e \<in> set (nodes g) \<and> 1 \<le> action e \<and> action e < c"
    and "distinct (map (\<lambda>e. (src e, dst e)) (edges g))"
    and "distinct (map (\<lambda>e. (src e, action e)) (edges g))"
  using assms by (simp_all add: graph_ok_def list_all_iff)

lemma distinct_map_eq:
  "distinct (map f xs) \<Longrightarrow> x \<in> set xs \<Longrightarrow> y \<in> set xs \<Longrightarrow> f x = f y \<Longrightarrow> x = y"
  by (auto simp: distinct_map dest: inj_onD)

lemma is_reverse_reverse: "is_reverse g (reverse st g)"
  by (simp add: is_reverse_def reverse_def comp_def)

subsection \<open>The tasks of reachable_set\<close>

lemma reach_tasks_Inr:
  "u \<in> set (nodes g) \<Longrightarrow>
     reach_tasks st g u =
       Inr (map Inr (map (\<lambda>e. (u, action e, truth st (safe e), dst e))
                      (filter (\<lambda>e. src e = u) (edges g))))"
  by (simp add: reach_tasks_def out_edges_def comp_def)

lemma tasks_of_reach:
  "t \<in> tasks_of (reach_tasks st g) u \<longleftrightarrow>
     u \<in> set (nodes g) \<and>
     (\<exists>e \<in> set (edges g). src e = u \<and> t = (u, action e, truth st (safe e), dst e))"
proof (cases "u \<in> set (nodes g)")
  case True
  show ?thesis
    unfolding tasks_of_Inr[of "reach_tasks st g" u, OF reach_tasks_Inr[OF True]] using True by auto
next
  case False
  then show ?thesis by (simp add: tasks_of_def reach_tasks_def out_edges_def)
qed

lemma reach_fits:
  assumes "graph_ok g r c"
  shows "fits (reach_tasks st g) (set (nodes g)) r c"
  unfolding fits_def
proof (intro conjI ballI)
  show "0 < c" using graph_okD(1)[OF assms] .
  show "u < r" if "u \<in> set (nodes g)" for u using graph_okD(2)[OF assms that] .
  fix u assume u: "u \<in> set (nodes g)"
  let ?ts = "map (\<lambda>e. (u, action e, truth st (safe e), dst e)) (filter (\<lambda>e. src e = u) (edges g))"
  have "\<forall>t \<in> set ?ts. task_ok (set (nodes g)) r c t"
  proof
    fix t assume "t \<in> set ?ts"
    then obtain e where e: "e \<in> set (edges g)" "src e = u"
      "t = (u, action e, truth st (safe e), dst e)" by auto
    from graph_okD(3)[OF assms e(1)] graph_okD(2)[OF assms u] e(3)
    show "task_ok (set (nodes g)) r c t" by (simp add: task_ok_def)
  qed
  with reach_tasks_Inr[OF u, of st]
  show "\<exists>ts. reach_tasks st g u = Inr (map Inr ts) \<and> (\<forall>t \<in> set ts. task_ok (set (nodes g)) r c t)"
    by blast
qed

lemma reach_act_pos:
  assumes "graph_ok g r c"
  shows "act_pos (reach_tasks st g) (set (nodes g))"
  unfolding act_pos_def
proof (intro ballI allI impI)
  fix u x a sf y assume "(x, a, sf, y) \<in> tasks_of (reach_tasks st g) u"
  then obtain e where "e \<in> set (edges g)" "a = action e" by (auto simp: tasks_of_reach)
  with graph_okD(3)[OF assms, of e] show "1 \<le> a" by simp
qed

lemma reach_determ:
  assumes "graph_ok g r c"
  shows "determ (reach_tasks st g) (set (nodes g))"
  unfolding determ_def
proof (intro ballI allI impI)
  fix u u' x a sf y sf' y'
  assume "(x, a, sf, y) \<in> tasks_of (reach_tasks st g) u \<and>
          (x, a, sf', y') \<in> tasks_of (reach_tasks st g) u'"
  then obtain e e' where e: "e \<in> set (edges g)" "src e = x" "a = action e" "y = dst e"
    and e': "e' \<in> set (edges g)" "src e' = x" "a = action e'" "y' = dst e'"
    by (auto simp: tasks_of_reach)
  then have "(\<lambda>e. (src e, action e)) e = (\<lambda>e. (src e, action e)) e'" by simp
  from distinct_map_eq[OF graph_okD(5)[OF assms] e(1) e'(1) this] e(4) e'(4)
  show "y = y'" by simp
qed

subsection \<open>The tasks of returnable_set\<close>

lemma find_unique:
  assumes "e \<in> set xs" "P e" "\<And>e'. e' \<in> set xs \<Longrightarrow> P e' \<Longrightarrow> e' = e"
  shows "find P xs = Some e"
  using assms
proof (induction xs)
  case Nil
  then show ?case by simp
next
  case (Cons x xs)
  show ?case
  proof (cases "P x")
    case True
    have "x = e" by (rule Cons.prems(3)) (simp_all add: True)
    with True show ?thesis by simp
  next
    case False
    have "find P xs = Some e"
    proof (rule Cons.IH)
      from Cons.prems(1,2) False show "e \<in> set xs" by auto
      show "P e" by fact
      fix e' assume "e' \<in> set xs" "P e'"
      then show "e' = e" by (intro Cons.prems(3)) simp_all
    qed
    with False show ?thesis by simp
  qed
qed

lemma get_edge_data_edge:
  assumes "distinct (map (\<lambda>e. (src e, dst e)) (edges g))" "e \<in> set (edges g)"
  shows "get_edge_data g (src e) (dst e) = Some e"
  unfolding get_edge_data_def
proof (rule find_unique[OF assms(2)])
  show "src e = src e \<and> dst e = dst e" by simp
  fix e' assume "e' \<in> set (edges g)" "src e' = src e \<and> dst e' = dst e"
  then have "(\<lambda>e. (src e, dst e)) e' = (\<lambda>e. (src e, dst e)) e" by simp
  from distinct_map_eq[OF assms(1) \<open>e' \<in> set (edges g)\<close> assms(2) this] show "e' = e" .
qed

lemma is_reverse_edge:
  assumes "is_reverse g rg"
  shows "q \<in> set (edges rg) \<Longrightarrow> \<exists>e \<in> set (edges g). src e = dst q \<and> dst e = src q"
    and "e \<in> set (edges g) \<Longrightarrow> \<exists>q \<in> set (edges rg). src q = dst e \<and> dst q = src e"
proof -
  from assms have eq: "(\<lambda>e. (src e, dst e)) ` set (edges rg) = (\<lambda>e. (dst e, src e)) ` set (edges g)"
    by (simp add: is_reverse_def)
  {
    assume "q \<in> set (edges rg)"
    then have "(src q, dst q) \<in> (\<lambda>e. (src e, dst e)) ` set (edges rg)" by (rule imageI)
    with eq have "(src q, dst q) \<in> (\<lambda>e. (dst e, src e)) ` set (edges g)" by simp
    then show "\<exists>e \<in> set (edges g). src e = dst q \<and> dst e = src q" by auto
  }
  {
    assume "e \<in> set (edges g)"
    then have "(dst e, src e) \<in> (\<lambda>e. (dst e, src e)) ` set (edges g)" by (rule imageI)
    with eq have "(dst e, src e) \<in> (\<lambda>e. (src e, dst e)) ` set (edges rg)" by simp
    then show "\<exists>q \<in> set (edges rg). src q = dst e \<and> dst q = src e" by auto
  }
qed

text \<open>The task of \<open>returnable_set\<close> for an edge \<open>q\<close> of the reverse graph leaving \<open>u\<close>.\<close>

definition return_task :: "store \<Rightarrow> digraph \<Rightarrow> nat \<Rightarrow> edge \<Rightarrow> task" where
  "return_task st g u q =
     (case get_edge_data g (dst q) u of
        None \<Rightarrow> (0, 0, False, 0)
      | Some d \<Rightarrow> (dst q, action d, truth st (safe d), dst q))"

lemma return_lookup:
  assumes ok: "graph_ok g r c" and rv: "is_reverse g rg" and q: "q \<in> set (edges rg)"
  shows "\<exists>e \<in> set (edges g). src e = dst q \<and> dst e = src q \<and>
           get_edge_data g (dst q) (src q) = Some e"
proof -
  from is_reverse_edge(1)[OF rv q] obtain e where e: "e \<in> set (edges g)" "src e = dst q" "dst e = src q"
    by blast
  from get_edge_data_edge[OF graph_okD(4)[OF ok] e(1)] e show ?thesis by auto
qed

lemma return_tasks_Inr:
  assumes ok: "graph_ok g r c" and rv: "is_reverse g rg" and u: "u \<in> set (nodes g)"
  shows "return_tasks st g rg u =
           Inr (map Inr (map (return_task st g u) (filter (\<lambda>q. src q = u) (edges rg))))"
proof -
  have one: "(case get_edge_data g (dst q) u of None \<Rightarrow> Inl TypeError
         | Some d \<Rightarrow> Inr (dst q, action d, truth st (safe d), dst q)) = Inr (return_task st g u q)"
    if "q \<in> set (filter (\<lambda>q. src q = u) (edges rg))" for q
  proof -
    from that have "q \<in> set (edges rg)" "src q = u" by simp_all
    with return_lookup[OF ok rv, of q] obtain e where "get_edge_data g (dst q) u = Some e" by auto
    then show ?thesis by (simp add: return_task_def)
  qed
  have "map (\<lambda>q. case get_edge_data g (dst q) u of None \<Rightarrow> Inl TypeError
                | Some d \<Rightarrow> Inr (dst q, action d, truth st (safe d), dst q))
          (filter (\<lambda>q. src q = u) (edges rg)) =
        map (\<lambda>q. Inr (return_task st g u q)) (filter (\<lambda>q. src q = u) (edges rg))"
    by (rule map_cong[OF refl]) (rule one)
  moreover from u rv have "u \<in> set (nodes rg)" by (simp add: is_reverse_def)
  ultimately show ?thesis by (simp add: return_tasks_def out_edges_def comp_def)
qed

lemma tasks_of_return:
  assumes ok: "graph_ok g r c" and rv: "is_reverse g rg" and u: "u \<in> set (nodes g)"
  shows "t \<in> tasks_of (return_tasks st g rg) u \<longleftrightarrow>
           (\<exists>e \<in> set (edges g). dst e = u \<and> t = (src e, action e, truth st (safe e), src e))"
proof
  assume "t \<in> tasks_of (return_tasks st g rg) u"
  then obtain q where q: "q \<in> set (edges rg)" "src q = u" "t = return_task st g u q"
    unfolding tasks_of_Inr[of "return_tasks st g rg" u, OF return_tasks_Inr[OF ok rv u]] by auto
  from return_lookup[OF ok rv q(1)] q(2) obtain e where e: "e \<in> set (edges g)" "src e = dst q"
    "dst e = u" "get_edge_data g (dst q) u = Some e" by auto
  from q(3) e(2,4) have "t = (src e, action e, truth st (safe e), src e)"
    by (simp add: return_task_def)
  with e(1,3) show "\<exists>e \<in> set (edges g). dst e = u \<and> t = (src e, action e, truth st (safe e), src e)"
    by blast
next
  assume "\<exists>e \<in> set (edges g). dst e = u \<and> t = (src e, action e, truth st (safe e), src e)"
  then obtain e where e: "e \<in> set (edges g)" "dst e = u"
    "t = (src e, action e, truth st (safe e), src e)" by blast
  from is_reverse_edge(2)[OF rv e(1)] obtain q where q: "q \<in> set (edges rg)" "src q = dst e"
    "dst q = src e" by blast
  from get_edge_data_edge[OF graph_okD(4)[OF ok] e(1)] q e(2)
  have "get_edge_data g (dst q) u = Some e" by simp
  with q(3) e(3) have "t = return_task st g u q" by (simp add: return_task_def)
  with q(1,2) e(2) show "t \<in> tasks_of (return_tasks st g rg) u"
    unfolding tasks_of_Inr[of "return_tasks st g rg" u, OF return_tasks_Inr[OF ok rv u]] by auto
qed

lemma return_fits:
  assumes ok: "graph_ok g r c" and rv: "is_reverse g rg"
  shows "fits (return_tasks st g rg) (set (nodes g)) r c"
  unfolding fits_def
proof (intro conjI ballI)
  show "0 < c" using graph_okD(1)[OF ok] .
  show "u < r" if "u \<in> set (nodes g)" for u using graph_okD(2)[OF ok that] .
  fix u assume u: "u \<in> set (nodes g)"
  let ?ts = "map (return_task st g u) (filter (\<lambda>q. src q = u) (edges rg))"
  have "\<forall>t \<in> set ?ts. task_ok (set (nodes g)) r c t"
  proof
    fix t assume "t \<in> set ?ts"
    then have "t \<in> tasks_of (return_tasks st g rg) u"
      unfolding tasks_of_Inr[of "return_tasks st g rg" u, OF return_tasks_Inr[OF ok rv u]] .
    then obtain e where e: "e \<in> set (edges g)" "t = (src e, action e, truth st (safe e), src e)"
      unfolding tasks_of_return[OF ok rv u] by blast
    from graph_okD(3)[OF ok e(1)] graph_okD(2)[OF ok, of "src e"] e(2)
    show "task_ok (set (nodes g)) r c t" by (simp add: task_ok_def)
  qed
  with return_tasks_Inr[OF ok rv u, of st]
  show "\<exists>ts. return_tasks st g rg u = Inr (map Inr ts) \<and>
          (\<forall>t \<in> set ts. task_ok (set (nodes g)) r c t)"
    by blast
qed

lemma return_act_pos:
  assumes ok: "graph_ok g r c" and rv: "is_reverse g rg"
  shows "act_pos (return_tasks st g rg) (set (nodes g))"
  unfolding act_pos_def
proof (intro ballI allI impI)
  fix u x a sf y
  assume u: "u \<in> set (nodes g)" and "(x, a, sf, y) \<in> tasks_of (return_tasks st g rg) u"
  then obtain e where "e \<in> set (edges g)" "a = action e"
    unfolding tasks_of_return[OF ok rv u] by auto
  with graph_okD(3)[OF ok, of e] show "1 \<le> a" by simp
qed

lemma return_determ:
  assumes ok: "graph_ok g r c" and rv: "is_reverse g rg"
  shows "determ (return_tasks st g rg) (set (nodes g))"
  unfolding determ_def
proof (intro ballI allI impI)
  fix u u' x a sf y sf' y'
  assume u: "u \<in> set (nodes g)" "u' \<in> set (nodes g)"
    and "(x, a, sf, y) \<in> tasks_of (return_tasks st g rg) u \<and>
         (x, a, sf', y') \<in> tasks_of (return_tasks st g rg) u'"
  then have "y = x" "y' = x"
    unfolding tasks_of_return[OF ok rv u(1)] tasks_of_return[OF ok rv u(2)] by auto
  then show "y = y'" by simp
qed

subsection \<open>Which errors the traversals can raise\<close>

lemma visit_edge_error: "visit_edge x a sf y s = (Some e, s') \<Longrightarrow> e = IndexError"
  by (auto simp: visit_edge_def mget_def split: prod.splits sum.splits if_splits)

lemma run_tasks_error:
  "run_tasks ts s = (Some e, s') \<Longrightarrow> e = IndexError \<or> Inl e \<in> set ts"
proof (induction ts arbitrary: s)
  case Nil
  then show ?case by simp
next
  case (Cons t ts)
  show ?case
  proof (cases t)
    case (Inl err)
    with Cons.prems show ?thesis by simp
  next
    case (Inr q)
    obtain x a sf y where q: "q = (x, a, sf, y)" by (cases q)
    obtain r1 s1 where v: "visit_edge x a sf y s = (r1, s1)"
      by (cases "visit_edge x a sf y s")
    show ?thesis
    proof (cases r1)
      case None
      with v Inr q Cons.prems have "run_tasks ts s1 = (Some e, s')" by simp
      from Cons.IH[OF this] show ?thesis by auto
    next
      case (Some err)
      with v Inr q Cons.prems have "err = e" by simp
      with v Some visit_edge_error[of x a sf y s e s1] show ?thesis by simp
    qed
  qed
qed

lemma task_loop_error:
  "task_loop T s = (Some e, s') \<Longrightarrow>
     e = IndexError \<or> (\<exists>n. T n = Inl e) \<or> (\<exists>n ts. T n = Inr ts \<and> Inl e \<in> set ts)"
proof (induction T s rule: task_loop.induct)
  case (1 T visited tr)
  then show ?case by simp
next
  case (2 T visited node stack tr)
  show ?case
  proof (cases "T node")
    case (Inl err)
    with "2.prems" have "err = e" by simp
    with Inl show ?thesis by blast
  next
    case (Inr ts)
    obtain r1 s1 where v: "run_tasks ts (visited, stack, tr) = (r1, s1)"
      by (cases "run_tasks ts (visited, stack, tr)")
    show ?thesis
    proof (cases r1)
      case None
      with Inr v "2.prems" have "task_loop T s1 = (Some e, s')" by simp
      from "2.IH"[OF Inr v[symmetric] None this] show ?thesis .
    next
      case (Some err)
      with Inr v "2.prems" have "err = e" by simp
      with v Some run_tasks_error[of ts "(visited, stack, tr)" e s1] Inr show ?thesis by blast
    qed
  qed
qed


lemma reach_tasks_error:
  "reach_tasks st g n = Inl e \<Longrightarrow> e = NetworkXError"
  "reach_tasks st g n = Inr ts \<Longrightarrow> Inl e \<notin> set ts"
  by (auto simp: reach_tasks_def out_edges_def split: if_splits)

lemma return_tasks_error:
  "return_tasks st g rg n = Inl e \<Longrightarrow> e = NetworkXError"
  "return_tasks st g rg n = Inr ts \<Longrightarrow> Inl e \<in> set ts \<Longrightarrow> e = TypeError"
  by (auto simp: return_tasks_def out_edges_def split: if_splits option.splits)

lemma seed_error: "seed m ns = Inl e \<Longrightarrow> e = IndexError"
  by (simp add: seed_def split: if_splits)

lemma reachable_set_AttributeError:
  "fst (reachable_set st g ns out) = Some AttributeError \<longleftrightarrow> ns = []"
proof (cases "ns = []")
  case True
  then show ?thesis by (simp add: reachable_set_def reachable_run_def)
next
  case False
  have "fst (reachable_set st g ns out) \<noteq> Some AttributeError"
  proof (cases "seed out ns")
    case (Inl err)
    with False seed_error[OF Inl] show ?thesis by (simp add: reachable_set_def reachable_run_def)
  next
    case (Inr v)
    let ?s0 = "(v, ns, map (\<lambda>n. Mark n 0) ns @ map Push ns)"
    obtain r1 s1 where l: "task_loop (reach_tasks st g) ?s0 = (r1, s1)"
      by (cases "task_loop (reach_tasks st g) ?s0")
    have "r1 \<noteq> Some AttributeError"
    proof
      assume "r1 = Some AttributeError"
      with task_loop_error[of "reach_tasks st g" ?s0 AttributeError s1] l
      show False using reach_tasks_error by blast
    qed
    with False Inr l show ?thesis
      by (cases s1) (simp add: reachable_set_def reachable_run_def reach_loop_tasks)
  qed
  with False show ?thesis by simp
qed

lemma returnable_set_AttributeError:
  "fst (returnable_set st g rg ns out) = Some AttributeError \<longleftrightarrow> ns = []"
proof (cases "ns = []")
  case True
  then show ?thesis by (simp add: returnable_set_def returnable_run_def)
next
  case False
  have "fst (returnable_set st g rg ns out) \<noteq> Some AttributeError"
  proof (cases "seed out ns")
    case (Inl err)
    with False seed_error[OF Inl] show ?thesis by (simp add: returnable_set_def returnable_run_def)
  next
    case (Inr v)
    let ?s0 = "(v, ns, map (\<lambda>n. Mark n 0) ns @ map Push ns)"
    obtain r1 s1 where l: "task_loop (return_tasks st g rg) ?s0 = (r1, s1)"
      by (cases "task_loop (return_tasks st g rg) ?s0")
    have "r1 \<noteq> Some AttributeError"
    proof
      assume "r1 = Some AttributeError"
      with task_loop_error[of "return_tasks st g rg" ?s0 AttributeError s1] l
      show False using return_tasks_error by blast
    qed
    with False Inr l show ?thesis
      by (cases s1) (simp add: returnable_set_def returnable_run_def return_loop_tasks)
  qed
  with False show ?thesis by simp
qed

subsection \<open>On a well-formed graph the traversals do not fail\<close>

lemma reachable_set_ok:
  assumes ok: "graph_ok g r c" and sh: "rect r c out" and ne: "ns \<noteq> []"
    and ns: "set ns \<subseteq> set (nodes g)"
  shows "fst (reachable_set st g ns out) = None"
proof -
  from sh have sh': "map length out = replicate r c" by (simp add: rect_iff)
  from ns graph_okD(2)[OF ok] have nr: "\<forall>n \<in> set ns. n < r" by blast
  from seed_cells[OF sh' graph_okD(1)[OF ok] nr] obtain v where v: "seed out ns = Inr v"
    "map length v = replicate r c" by blast
  let ?s0 = "(v, ns, map (\<lambda>n. Mark n 0) ns @ map Push ns)"
  from task_loop_ok[OF reach_fits[OF ok, of st], of ?s0] v(2) ns
  obtain v' tr' where "task_loop (reach_tasks st g) ?s0 = (None, (v', [], tr'))" by auto
  with ne v(1) show ?thesis by (simp add: reachable_set_def reachable_run_def reach_loop_tasks)
qed

lemma returnable_set_ok:
  assumes ok: "graph_ok g r c" and rv: "is_reverse g rg" and sh: "rect r c out" and ne: "ns \<noteq> []"
    and ns: "set ns \<subseteq> set (nodes g)"
  shows "fst (returnable_set st g rg ns out) = None"
proof -
  from sh have sh': "map length out = replicate r c" by (simp add: rect_iff)
  from ns graph_okD(2)[OF ok] have nr: "\<forall>n \<in> set ns. n < r" by blast
  from seed_cells[OF sh' graph_okD(1)[OF ok] nr] obtain v where v: "seed out ns = Inr v"
    "map length v = replicate r c" by blast
  let ?s0 = "(v, ns, map (\<lambda>n. Mark n 0) ns @ map Push ns)"
  from task_loop_ok[OF return_fits[OF ok rv, of st], of ?s0] v(2) ns
  obtain v' tr' where "task_loop (return_tasks st g rg) ?s0 = (None, (v', [], tr'))" by auto
  with ne v(1) show ?thesis by (simp add: returnable_set_def returnable_run_def return_loop_tasks)
qed

subsection \<open>What the traversals mark\<close>

text \<open>
  The cells a traversal sets: in column 0 the nodes that can be reached from the seeds,
  in column \<open>j > 0\<close> the cells of the safe tasks of those nodes.
\<close>

definition marked :: "(nat \<Rightarrow> error + (error + task) list) \<Rightarrow> nat set \<Rightarrow> nat \<Rightarrow> nat \<Rightarrow> bool" where
  "marked T S i j \<longleftrightarrow>
     (if j = 0 then i \<in> closure T S
      else \<exists>u y. u \<in> closure T S \<and> (i, j, True, y) \<in> tasks_of T u)"

definition sub_tasks ::
  "(nat \<Rightarrow> error + (error + task) list) \<Rightarrow> (nat \<Rightarrow> error + (error + task) list) \<Rightarrow> bool" where
  "sub_tasks T T' \<longleftrightarrow>
     (\<forall>u x a y. (x, a, True, y) \<in> tasks_of T u \<longrightarrow> (x, a, True, y) \<in> tasks_of T' u)"

lemma closure_mono:
  assumes "sub_tasks T T'"
  shows "closure T S \<subseteq> closure T' S"
proof -
  have "rel_of T \<subseteq> rel_of T'"
    using assms unfolding rel_of_def sub_tasks_def by blast
  then have "(rel_of T)\<^sup>* \<subseteq> (rel_of T')\<^sup>*" by (rule rtrancl_mono)
  then show ?thesis unfolding closure_def by blast
qed

lemma marked_mono:
  assumes "sub_tasks T T'" "marked T S i j"
  shows "marked T' S i j"
proof (cases "j = 0")
  case True
  with assms(2) closure_mono[OF assms(1), of S] show ?thesis by (auto simp: marked_def)
next
  case False
  with assms(2) obtain u y where "u \<in> closure T S" "(i, j, True, y) \<in> tasks_of T u"
    by (auto simp: marked_def)
  with closure_mono[OF assms(1), of S] assms(1)
  have "u \<in> closure T' S" "(i, j, True, y) \<in> tasks_of T' u"
    unfolding sub_tasks_def by blast+
  with False show ?thesis unfolding marked_def by auto
qed

lemma task_loop_marked:
  assumes f: "fits T N r c" and ap: "act_pos T N" and dt: "determ T N"
    and sh: "map length out = replicate r c" and em: "\<forall>i j. \<not> cell out i j"
    and ns: "set ns \<subseteq> N"
  shows "\<exists>v0 v' tr'. seed out ns = Inr v0 \<and> task_loop T (v0, ns, tr) = (None, (v', [], tr')) \<and>
           map length v' = replicate r c \<and> (\<forall>i j. cell v' i j \<longleftrightarrow> marked T (set ns) i j)"
proof -
  from task_loop_marks[OF f ap dt sh em ns, of tr]
  obtain v0 v' tr' where a: "seed out ns = Inr v0"
    "task_loop T (v0, ns, tr) = (None, (v', [], tr'))" "map length v' = replicate r c"
    and c0: "\<forall>z. cell v' z 0 \<longleftrightarrow> z \<in> closure T (set ns)"
    and c1: "\<forall>x a. 1 \<le> a \<longrightarrow>
              (cell v' x a \<longleftrightarrow> (\<exists>u y. u \<in> closure T (set ns) \<and> (x, a, True, y) \<in> tasks_of T u))"
    by blast
  have "cell v' i j \<longleftrightarrow> marked T (set ns) i j" for i j
  proof (cases "j = 0")
    case True
    with c0 show ?thesis by (simp add: marked_def)
  next
    case False
    then have "1 \<le> j" by simp
    with c1 have "cell v' i j \<longleftrightarrow> (\<exists>u y. u \<in> closure T (set ns) \<and> (i, j, True, y) \<in> tasks_of T u)"
      by blast
    with False show ?thesis by (simp add: marked_def)
  qed
  then have "\<forall>i j. cell v' i j \<longleftrightarrow> marked T (set ns) i j" by blast
  with a show ?thesis by blast
qed

lemma reachable_set_marked:
  assumes ok: "graph_ok g r c" and sh: "rect r c out" and em: "\<forall>i j. \<not> cell out i j"
    and ne: "ns \<noteq> []" and ns: "set ns \<subseteq> set (nodes g)"
  shows "\<exists>v. reachable_set st g ns out = (None, v) \<and> rect r c v \<and>
           (\<forall>i j. cell v i j \<longleftrightarrow> marked (reach_tasks st g) (set ns) i j)"
proof -
  from sh have sh': "map length out = replicate r c" by (simp add: rect_iff)
  from task_loop_marked[OF reach_fits[OF ok] reach_act_pos[OF ok] reach_determ[OF ok] sh' em ns,
      of st "map (\<lambda>n. Mark n 0) ns @ map Push ns"]
  obtain v0 v' tr' where a: "seed out ns = Inr v0"
    "task_loop (reach_tasks st g) (v0, ns, map (\<lambda>n. Mark n 0) ns @ map Push ns) = (None, (v', [], tr'))"
    "map length v' = replicate r c"
    "\<forall>i j. cell v' i j \<longleftrightarrow> marked (reach_tasks st g) (set ns) i j" by blast
  from a(1,2) ne have "reachable_set st g ns out = (None, v')"
    by (simp add: reachable_set_def reachable_run_def reach_loop_tasks)
  with a(3,4) show ?thesis by (simp add: rect_iff)
qed

lemma returnable_set_marked:
  assumes ok: "graph_ok g r c" and rv: "is_reverse g rg"
    and sh: "rect r c out" and em: "\<forall>i j. \<not> cell out i j"
    and ne: "ns \<noteq> []" and ns: "set ns \<subseteq> set (nodes g)"
  shows "\<exists>v. returnable_set st g rg ns out = (None, v) \<and> rect r c v \<and>
           (\<forall>i j. cell v i j \<longleftrightarrow> marked (return_tasks st g rg) (set ns) i j)"
proof -
  from sh have sh': "map length out = replicate r c" by (simp add: rect_iff)
  from task_loop_marked[OF return_fits[OF ok rv] return_act_pos[OF ok rv] return_determ[OF ok rv]
      sh' em ns, of st "map (\<lambda>n. Mark n 0) ns @ map Push ns"]
  obtain v0 v' tr' where a: "seed out ns = Inr v0"
    "task_loop (return_tasks st g rg) (v0, ns, map (\<lambda>n. Mark n 0) ns @ map Push ns) =
       (None, (v', [], tr'))"
    "map length v' = replicate r c"
    "\<forall>i j. cell v' i j \<longleftrightarrow> marked (return_tasks st g rg) (set ns) i j" by blast
  from a(1,2) ne have "returnable_set st g rg ns out = (None, v')"
    by (simp add: returnable_set_def returnable_run_def return_loop_tasks)
  with a(3,4) show ?thesis by (simp add: rect_iff)
qed

lemma rect_fill_false: "rect r c m \<Longrightarrow> rect r c (fill_false m)"
  by (simp add: rect_iff map_length_fill_false)

lemma compute_S_hat_marked:
  assumes ok: "graph_ok (graph s) r c" and rv: "is_reverse (graph s) (graph_reverse s)"
    and sr: "rect r c (reach s)" and ss: "rect r c (S_hat s)"
    and ne: "initial_nodes s \<noteq> []" and ns: "set (initial_nodes s) \<subseteq> set (nodes (graph s))"
  shows "\<exists>s'. compute_S_hat st s = (None, s') \<and>
           (\<forall>i j. cell (reach s') i j \<longleftrightarrow>
              marked (reach_tasks st (graph s)) (set (initial_nodes s)) i j) \<and>
           (\<forall>i j. cell (S_hat s') i j \<longleftrightarrow>
              marked (return_tasks st (graph s) (graph_reverse s)) (set (initial_nodes s)) i j \<and>
              marked (reach_tasks st (graph s)) (set (initial_nodes s)) i j)"
proof -
  have em: "\<forall>i j. \<not> cell (fill_false m) i j" for m by (simp add: cell_fill_false)
  from reachable_set_marked[OF ok rect_fill_false[OF sr] em ne ns, of st]
  obtain v1 where v1: "reachable_set st (graph s) (initial_nodes s) (fill_false (reach s)) = (None, v1)"
    "rect r c v1"
    "\<forall>i j. cell v1 i j \<longleftrightarrow> marked (reach_tasks st (graph s)) (set (initial_nodes s)) i j"
    by blast
  from returnable_set_marked[OF ok rv rect_fill_false[OF ss] em ne ns, of st]
  obtain v2 where v2: "returnable_set st (graph s) (graph_reverse s) (initial_nodes s)
       (fill_false (S_hat s)) = (None, v2)"
    "rect r c v2"
    "\<forall>i j. cell v2 i j \<longleftrightarrow>
       marked (return_tasks st (graph s) (graph_reverse s)) (set (initial_nodes s)) i j"
    by blast
  from iand_rect[OF v2(2) v1(2)] obtain m where m: "iand v2 v1 = Inr m"
    "\<forall>i j. cell m i j \<longleftrightarrow> cell v2 i j \<and> cell v1 i j" by blast
  have "compute_S_hat st s = (None, s\<lparr>reach := v1, S_hat := m\<rparr>)"
    by (simp add: compute_S_hat_def v1(1) v2(1) m(1))
  moreover have "\<forall>i j. cell m i j \<longleftrightarrow>
      marked (return_tasks st (graph s) (graph_reverse s)) (set (initial_nodes s)) i j \<and>
      marked (reach_tasks st (graph s)) (set (initial_nodes s)) i j"
    using m(2) v1(3) v2(3) by simp
  ultimately show ?thesis using v1(3) by simp
qed

subsection \<open>Relabelling the edges\<close>

text \<open>
  \<open>g'\<close> under the store \<open>st'\<close> is \<open>g\<close> under \<open>st\<close> with other safety labels,
  none of which went from safe to unsafe: the same nodes, the same edges with the same
  actions in the same order, and every edge that tested safe still does. The labels may
  have changed in the edge data or, for linked edges, in the array of the store.
\<close>

definition relabelled :: "store \<Rightarrow> digraph \<Rightarrow> store \<Rightarrow> digraph \<Rightarrow> bool" where
  "relabelled st g st' g' \<longleftrightarrow>
     nodes g' = nodes g \<and>
     map src (edges g') = map src (edges g) \<and>
     map dst (edges g') = map dst (edges g) \<and>
     map action (edges g') = map action (edges g) \<and>
     list_all2 (\<lambda>e e'. truth st (safe e) \<longrightarrow> truth st' (safe e')) (edges g) (edges g')"

lemma map_eq_nth:
  assumes "map f xs = map f ys"
  shows "length xs = length ys" and "i < length ys \<Longrightarrow> f (xs ! i) = f (ys ! i)"
proof -
  from assms have "length (map f xs) = length (map f ys)" by simp
  then show l: "length xs = length ys" by simp
  assume "i < length ys"
  with l have "map f xs ! i = f (xs ! i)" "map f ys ! i = f (ys ! i)" by simp_all
  with assms show "f (xs ! i) = f (ys ! i)" by simp
qed

lemma relabelled_nth:
  assumes "relabelled st g st' g'"
  shows "nodes g' = nodes g" and "length (edges g') = length (edges g)"
    and "i < length (edges g) \<Longrightarrow>
           src (edges g' ! i) = src (edges g ! i) \<and> dst (edges g' ! i) = dst (edges g ! i) \<and>
           action (edges g' ! i) = action (edges g ! i) \<and>
           (truth st (safe (edges g ! i)) \<longrightarrow> truth st' (safe (edges g' ! i)))"
proof -
  from assms have a: "map src (edges g') = map src (edges g)"
    and b: "map dst (edges g') = map dst (edges g)"
    and c: "map action (edges g') = map action (edges g)"
    and d: "list_all2 (\<lambda>e e'. truth st (safe e) \<longrightarrow> truth st' (safe e')) (edges g) (edges g')"
    and n: "nodes g' = nodes g"
    by (simp_all add: relabelled_def)
  show "nodes g' = nodes g" by fact
  show "length (edges g') = length (edges g)" using map_eq_nth(1)[OF a] .
  assume i: "i < length (edges g)"
  from map_eq_nth(2)[OF a i] map_eq_nth(2)[OF b i] map_eq_nth(2)[OF c i] list_all2_nthD[OF d i]
  show "src (edges g' ! i) = src (edges g ! i) \<and> dst (edges g' ! i) = dst (edges g ! i) \<and>
        action (edges g' ! i) = action (edges g ! i) \<and>
        (truth st (safe (edges g ! i)) \<longrightarrow> truth st' (safe (edges g' ! i)))"
    by simp
qed

lemma relabelled_edge:
  assumes "relabelled st g st' g'" "e \<in> set (edges g)"
  shows "\<exists>e' \<in> set (edges g'). src e' = src e \<and> dst e' = dst e \<and> action e' = action e \<and>
           (truth st (safe e) \<longrightarrow> truth st' (safe e'))"
proof -
  from assms(2) obtain i where i: "i < length (edges g)" "e = edges g ! i"
    by (auto simp: in_set_conv_nth)
  with relabelled_nth(2)[OF assms(1)] have "edges g' ! i \<in> set (edges g')" by simp
  with relabelled_nth(3)[OF assms(1) i(1)] i(2) show ?thesis by blast
qed

lemma relabelled_maps:
  assumes "relabelled st g st' g'"
  shows "map (\<lambda>e. (src e, dst e)) (edges g') = map (\<lambda>e. (src e, dst e)) (edges g)"
    and "map (\<lambda>e. (src e, action e)) (edges g') = map (\<lambda>e. (src e, action e)) (edges g)"
    and "map (\<lambda>e. (dst e, src e)) (edges g') = map (\<lambda>e. (dst e, src e)) (edges g)"
  using relabelled_nth(2,3)[OF assms]
  by (auto intro!: nth_equalityI)

lemma relabelled_graph_ok:
  assumes rl: "relabelled st g st' g'" and ok: "graph_ok g r c"
  shows "graph_ok g' r c"
proof -
  have "src e' \<in> set (nodes g') \<and> dst e' \<in> set (nodes g') \<and> 1 \<le> action e' \<and> action e' < c"
    if "e' \<in> set (edges g')" for e'
  proof -
    from that obtain i where i: "i < length (edges g')" "e' = edges g' ! i"
      by (auto simp: in_set_conv_nth)
    with relabelled_nth(2)[OF rl] have j: "i < length (edges g)" by simp
    then have "edges g ! i \<in> set (edges g)" by simp
    from graph_okD(3)[OF ok this] relabelled_nth(3)[OF rl j] relabelled_nth(1)[OF rl] i(2)
    show ?thesis by simp
  qed
  then have "list_all (\<lambda>e. src e \<in> set (nodes g') \<and> dst e \<in> set (nodes g') \<and>
                    1 \<le> action e \<and> action e < c) (edges g')"
    by (simp add: list_all_iff)
  moreover have "list_all (\<lambda>n. n < r) (nodes g')"
    using ok relabelled_nth(1)[OF rl] by (simp add: graph_ok_def)
  ultimately show ?thesis
    using ok by (simp add: graph_ok_def relabelled_maps[OF rl])
qed

lemma relabelled_is_reverse:
  assumes "relabelled st g st' g'" "is_reverse g rg"
  shows "is_reverse g' rg"
  using assms(2) relabelled_nth(1)[OF assms(1)]
  by (simp add: is_reverse_def relabelled_maps(3)[OF assms(1)])

lemma reach_sub_tasks:
  assumes "relabelled st g st' g'"
  shows "sub_tasks (reach_tasks st g) (reach_tasks st' g')"
  unfolding sub_tasks_def
proof (intro allI impI)
  fix u x a y assume "(x, a, True, y) \<in> tasks_of (reach_tasks st g) u"
  then obtain e where u: "u \<in> set (nodes g)" and e: "e \<in> set (edges g)" "src e = u"
    "x = u" "a = action e" "truth st (safe e)" "y = dst e"
    by (auto simp: tasks_of_reach)
  from relabelled_edge[OF assms e(1)] e(5) obtain e' where e': "e' \<in> set (edges g')"
    "src e' = src e" "dst e' = dst e" "action e' = action e" "truth st' (safe e')" by blast
  have "(u, action e', truth st' (safe e'), dst e') \<in> tasks_of (reach_tasks st' g') u"
    unfolding tasks_of_reach using u relabelled_nth(1)[OF assms] e'(1,2) e(2) by auto
  with e e' show "(x, a, True, y) \<in> tasks_of (reach_tasks st' g') u" by simp
qed

lemma return_sub_tasks:
  assumes rl: "relabelled st g st' g'" and ok: "graph_ok g r c" and rv: "is_reverse g rg"
  shows "sub_tasks (return_tasks st g rg) (return_tasks st' g' rg)"
  unfolding sub_tasks_def
proof (intro allI impI)
  fix u x a y assume t: "(x, a, True, y) \<in> tasks_of (return_tasks st g rg) u"
  have u: "u \<in> set (nodes g)"
  proof (rule ccontr)
    assume "u \<notin> set (nodes g)"
    with rv have "u \<notin> set (nodes rg)" by (simp add: is_reverse_def)
    then have "tasks_of (return_tasks st g rg) u = {}"
      by (simp add: tasks_of_def return_tasks_def out_edges_def)
    with t show False by simp
  qed
  from t obtain e where e: "e \<in> set (edges g)" "dst e = u"
    "x = src e" "a = action e" "truth st (safe e)" "y = src e"
    unfolding tasks_of_return[OF ok rv u] by auto
  from relabelled_edge[OF rl e(1)] e(5) obtain e' where e': "e' \<in> set (edges g')"
    "src e' = src e" "dst e' = dst e" "action e' = action e" "truth st' (safe e')" by blast
  from u relabelled_nth(1)[OF rl] have u': "u \<in> set (nodes g')" by simp
  have "(src e', action e', truth st' (safe e'), src e') \<in> tasks_of (return_tasks st' g' rg) u"
    unfolding tasks_of_return[OF relabelled_graph_ok[OF rl ok] relabelled_is_reverse[OF rl rv] u']
    using e'(1,3) e(2) by auto
  with e e' show "(x, a, True, y) \<in> tasks_of (return_tasks st' g' rg) u" by simp
qed

lemma compute_S_hat_monotone:
  assumes ok: "graph_ok (graph s) r c" and rv: "is_reverse (graph s) (graph_reverse s)"
    and sr: "rect r c (reach s)" and ss: "rect r c (S_hat s)"
    and ne: "initial_nodes s \<noteq> []" and ns: "set (initial_nodes s) \<subseteq> set (nodes (graph s))"
    and rl: "relabelled st (graph s) st' g'"
  shows "\<exists>s1 s2. compute_S_hat st s = (None, s1) \<and>
           compute_S_hat st' (s\<lparr>graph := g'\<rparr>) = (None, s2) \<and>
           (\<forall>i j. cell (reach s1) i j \<longrightarrow> cell (reach s2) i j) \<and>
           (\<forall>i j. cell (S_hat s1) i j \<longrightarrow> cell (S_hat s2) i j)"
proof -
  let ?S = "set (initial_nodes s)"
  let ?s' = "s\<lparr>graph := g'\<rparr>"
  from compute_S_hat_marked[OF ok rv sr ss ne ns, of st]
  obtain s1 where s1: "compute_S_hat st s = (None, s1)"
    "\<forall>i j. cell (reach s1) i j \<longleftrightarrow> marked (reach_tasks st (graph s)) ?S i j"
    "\<forall>i j. cell (S_hat s1) i j \<longleftrightarrow>
       marked (return_tasks st (graph s) (graph_reverse s)) ?S i j \<and>
       marked (reach_tasks st (graph s)) ?S i j" by blast
  have ok': "graph_ok (graph ?s') r c" using relabelled_graph_ok[OF rl ok] by simp
  have rv': "is_reverse (graph ?s') (graph_reverse ?s')"
    using relabelled_is_reverse[OF rl rv] by simp
  have ns': "set (initial_nodes ?s') \<subseteq> set (nodes (graph ?s'))"
    using ns relabelled_nth(1)[OF rl] by simp
  from compute_S_hat_marked[OF ok' rv' _ _ _ ns', of st'] sr ss ne
  obtain s2 where s2: "compute_S_hat st' ?s' = (None, s2)"
    "\<forall>i j. cell (reach s2) i j \<longleftrightarrow> marked (reach_tasks st' g') ?S i j"
    "\<forall>i j. cell (S_hat s2) i j \<longleftrightarrow>
       marked (return_tasks st' g' (graph_reverse s)) ?S i j \<and>
       marked (reach_tasks st' g') ?S i j" by auto
  note m1 = marked_mono[OF reach_sub_tasks[OF rl]]
  note m2 = marked_mono[OF return_sub_tasks[OF rl ok rv]]
  have "\<forall>i j. cell (reach s1) i j \<longrightarrow> cell (reach s2) i j"
    using s1(2) s2(2) m1 by blast
  moreover have "\<forall>i j. cell (S_hat s1) i j \<longrightarrow> cell (S_hat s2) i j"
    using s1(3) s2(3) m1 m2 by blast
  ultimately show ?thesis using s1(1) s2(1) by blast
qed

section \<open>The empty-seed error of the traversals\<close>

lemma line_graph_ok: "graph_ok line_graph 3 2"
  by (simp add: graph_ok_def line_graph_def)

lemma line_graph_reverse: "is_reverse line_graph (reverse no_store line_graph)"
  by (rule is_reverse_reverse)

lemma seed_node0_rect: "rect 3 2 seed_node0"
  by (simp add: rect_def seed_node0_def)

text \<open>
  C5: each traversal raises the empty-seed error (the AttributeError of the code) exactly
  when the seed list is empty, and then \<open>out\<close> is as the caller passed it. With a
  non-empty seed list of nodes of a well-formed graph (and, for \<open>returnable_set\<close>, its
  reverse) and an \<open>out\<close> of the graph's shape, neither traversal fails, whatever
  \<open>out\<close> holds.
\<close>

theorem empty_seed_list_error:
  "(fst (reachable_set st g ns out) = Some AttributeError \<longleftrightarrow> ns = []) \<and>
   (fst (returnable_set st g rg ns out) = Some AttributeError \<longleftrightarrow> ns = []) \<and>
   (ns = [] \<longrightarrow> snd (reachable_set st g ns out) = out \<and>
                snd (returnable_set st g rg ns out) = out) \<and>
   (graph_ok g r c \<and> is_reverse g rg \<and> rect r c out \<and> ns \<noteq> [] \<and>
    set ns \<subseteq> set (nodes g) \<longrightarrow>
      fst (reachable_set st g ns out) = None \<and> fst (returnable_set st g rg ns out) = None)"
proof (intro conjI impI)
  show "fst (reachable_set st g ns out) = Some AttributeError \<longleftrightarrow> ns = []"
    by (rule reachable_set_AttributeError)
  show "fst (returnable_set st g rg ns out) = Some AttributeError \<longleftrightarrow> ns = []"
    by (rule returnable_set_AttributeError)
  show "snd (reachable_set st g ns out) = out" if "ns = []"
    using that by (simp add: reachable_set_def reachable_run_def)
  show "snd (returnable_set st g rg ns out) = out" if "ns = []"
    using that by (simp add: returnable_set_def returnable_run_def)
  assume a: "graph_ok g r c \<and> is_reverse g rg \<and> rect r c out \<and> ns \<noteq> [] \<and>
    set ns \<subseteq> set (nodes g)"
  then show "fst (reachable_set st g ns out) = None"
    using reachable_set_ok[of g r c out ns st] by blast
  from a show "fst (returnable_set st g rg ns out) = None"
    using returnable_set_ok[of g r c rg out ns st] by blast
qed

theorem empty_seed_list_error_witness:
  "graph_ok line_graph 3 2 \<and> is_reverse line_graph (reverse no_store line_graph) \<and>
   rect 3 2 seed_node0 \<and> [0::nat] \<noteq> [] \<and> set [0] \<subseteq> set (nodes line_graph) \<and>
   fst (reachable_set no_store line_graph [0] seed_node0) = None \<and>
   fst (returnable_set no_store line_graph (reverse no_store line_graph) [0] seed_node0) = None \<and>
   fst (reachable_set no_store line_graph [] seed_node0) = Some AttributeError \<and>
   snd (reachable_set no_store line_graph [] seed_node0) = seed_node0 \<and>
   fst (returnable_set no_store line_graph (reverse no_store line_graph) [] seed_node0) =
     Some AttributeError \<and>
   snd (returnable_set no_store line_graph (reverse no_store line_graph) [] seed_node0) =
     seed_node0"
proof -
  have n: "[0::nat] \<noteq> []" "set [0] \<subseteq> set (nodes line_graph)"
    by (simp_all add: line_graph_def)
  note h = line_graph_ok line_graph_reverse seed_node0_rect
  from empty_seed_list_error[of no_store line_graph "[0]" seed_node0
      "reverse no_store line_graph" 3 2] h n
  have a: "fst (reachable_set no_store line_graph [0] seed_node0) = None \<and>
     fst (returnable_set no_store line_graph (reverse no_store line_graph) [0] seed_node0) = None"
    by blast
  from empty_seed_list_error[of no_store line_graph "[]" seed_node0
      "reverse no_store line_graph" 3 2]
  have b: "fst (reachable_set no_store line_graph [] seed_node0) = Some AttributeError \<and>
     snd (reachable_set no_store line_graph [] seed_node0) = seed_node0 \<and>
     fst (returnable_set no_store line_graph (reverse no_store line_graph) [] seed_node0) =
       Some AttributeError \<and>
     snd (returnable_set no_store line_graph (reverse no_store line_graph) [] seed_node0) =
       seed_node0"
    by blast
  from a b h n show ?thesis by blast
qed

section \<open>Monotonicity in the safety labels\<close>

text \<open>The line graph of Scenario A with the edge 0 -> 1 unsafe, and its SafeMDP.\<close>

definition blocked_line_graph :: digraph where
  "blocked_line_graph =
     \<lparr>nodes = [0, 1, 2],
      edges = [\<lparr>src = 0, dst = 1, action = 1, safe = Flag False\<rparr>,
               \<lparr>src = 1, dst = 2, action = 1, safe = Flag True\<rparr>]\<rparr>"

definition blocked_mdp :: "nat safe_mdp" where
  "blocked_mdp = line_mdp\<lparr>graph := blocked_line_graph\<rparr>"

lemma blocked_mdp_ok:
  "graph_ok (graph blocked_mdp) 3 2"
  "is_reverse (graph blocked_mdp) (graph_reverse blocked_mdp)"
  "rect 3 2 (reach blocked_mdp)"
  "rect 3 2 (S_hat blocked_mdp)"
  "initial_nodes blocked_mdp \<noteq> []"
  "set (initial_nodes blocked_mdp) \<subseteq> set (nodes (graph blocked_mdp))"
  "relabelled no_store (graph blocked_mdp) no_store line_graph"
  using line_mdp_rect
  by (simp_all add: blocked_mdp_def blocked_line_graph_def graph_ok_def is_reverse_def
      reverse_def line_mdp_def line_graph_def relabelled_def)

text \<open>
  C4: on a well-formed graph (the spec's data model: actions from 1 up, one edge per
  node and action) with a non-empty seed list, if the graph is relabelled so that every
  edge that was safe stays safe (in particular when one edge goes from unsafe to safe and
  every other label is kept), then both recomputations succeed and every cell that was
  true in \<open>reach\<close>, respectively \<open>S_hat\<close>, under the old labels is true under the
  new ones.
\<close>

theorem safety_monotone:
  assumes "graph_ok (graph s) r c" and "is_reverse (graph s) (graph_reverse s)"
    and "rect r c (reach s)" and "rect r c (S_hat s)"
    and "initial_nodes s \<noteq> []" and "set (initial_nodes s) \<subseteq> set (nodes (graph s))"
    and "relabelled st (graph s) st' g'"
  shows "\<exists>s1 s2. compute_S_hat st s = (None, s1) \<and>
           compute_S_hat st' (s\<lparr>graph := g'\<rparr>) = (None, s2) \<and>
           (\<forall>i j. cell (reach s1) i j \<longrightarrow> cell (reach s2) i j) \<and>
           (\<forall>i j. cell (S_hat s1) i j \<longrightarrow> cell (S_hat s2) i j)"
  using assms by (rule compute_S_hat_monotone)

theorem safety_monotone_witness:
  "graph_ok (graph blocked_mdp) 3 2 \<and>
   is_reverse (graph blocked_mdp) (graph_reverse blocked_mdp) \<and>
   rect 3 2 (reach blocked_mdp) \<and> rect 3 2 (S_hat blocked_mdp) \<and>
   initial_nodes blocked_mdp \<noteq> [] \<and>
   set (initial_nodes blocked_mdp) \<subseteq> set (nodes (graph blocked_mdp)) \<and>
   relabelled no_store (graph blocked_mdp) no_store line_graph \<and>
   \<not> truth no_store (safe (edges (graph blocked_mdp) ! 0)) \<and>
   truth no_store (safe (edges line_graph ! 0)) \<and>
   (\<exists>s1 s2. compute_S_hat no_store blocked_mdp = (None, s1) \<and>
      compute_S_hat no_store (blocked_mdp\<lparr>graph := line_graph\<rparr>) = (None, s2) \<and>
      (\<forall>i j. cell (reach s1) i j \<longrightarrow> cell (reach s2) i j) \<and>
      (\<forall>i j. cell (S_hat s1) i j \<longrightarrow> cell (S_hat s2) i j))"
proof -
  have t: "\<not> truth no_store (safe (edges (graph blocked_mdp) ! 0))"
    "truth no_store (safe (edges line_graph ! 0))"
    by (simp_all add: blocked_mdp_def blocked_line_graph_def line_graph_def)
  from safety_monotone[OF blocked_mdp_ok] blocked_mdp_ok t show ?thesis by blast
qed

text \<open>
  The hypothesis that a node has one edge per action is needed: when two edges leaving
  node 0 carry action 1, making the first one safe hides the second, and node 2 is no
  longer reached.
\<close>

definition shared_action_graph :: "bool \<Rightarrow> digraph" where
  "shared_action_graph b =
     \<lparr>nodes = [0, 1, 2],
      edges = [\<lparr>src = 0, dst = 1, action = 1, safe = Flag b\<rparr>,
               \<lparr>src = 0, dst = 2, action = 1, safe = Flag True\<rparr>]\<rparr>"

lemma shared_action_not_monotone:
  "reachable_set no_store (shared_action_graph False) [0]
     [[False, False, False], [False, False, False], [False, False, False]] =
     (None, [[True, True, False], [False, False, False], [True, False, False]]) \<and>
   reachable_set no_store (shared_action_graph True) [0]
     [[False, False, False], [False, False, False], [False, False, False]] =
     (None, [[True, True, False], [True, False, False], [False, False, False]])"
  by (simp add: eval_simps shared_action_graph_def)

section \<open>Reachability on the reverse graph\<close>

text \<open>\<open>np.zeros((r, c), dtype=bool)\<close>, the matrix the traversals start from when no \<open>out\<close> is given.\<close>

definition np_zeros :: "nat \<Rightarrow> nat \<Rightarrow> matrix" where
  "np_zeros r c = replicate r (replicate c False)"

lemma np_zeros_rect: "rect r c (np_zeros r c)"
  by (simp add: rect_iff np_zeros_def)

lemma np_zeros_cell: "\<not> cell (np_zeros r c) i j"
  by (auto simp: cell_def np_zeros_def)

text \<open>Two edges into node 0, from nodes 1 and 2, both with action 1 and both safe.\<close>

definition fan_in_graph :: digraph where
  "fan_in_graph =
     \<lparr>nodes = [0, 1, 2],
      edges = [\<lparr>src = 1, dst = 0, action = 1, safe = Flag True\<rparr>,
               \<lparr>src = 2, dst = 0, action = 1, safe = Flag True\<rparr>]\<rparr>"

text \<open>
  C6 as stated fails on a well-formed graph: \<open>returnable_set\<close> on the fan-in graph
  marks nodes 0, 1 and 2 in column 0, while \<open>reachable_set\<close> on its reverse marks only
  0 and 1, because the two reversed edges leave node 0 with the same action and the
  second finds the cell (0, 1) already set.
\<close>

theorem fan_in_breaks_symmetry:
  "graph_ok fan_in_graph 3 2 \<and>
   returnable_set no_store fan_in_graph (reverse no_store fan_in_graph) [0] (np_zeros 3 2) =
     (None, [[True, False], [True, True], [True, True]]) \<and>
   reachable_set no_store (reverse no_store fan_in_graph) [0] (np_zeros 3 2) =
     (None, [[True, True], [True, False], [False, False]]) \<and>
   cell (snd (returnable_set no_store fan_in_graph (reverse no_store fan_in_graph) [0]
          (np_zeros 3 2))) 2 0 \<and>
   \<not> cell (snd (reachable_set no_store (reverse no_store fan_in_graph) [0] (np_zeros 3 2))) 2 0"
proof -
  have z: "np_zeros 3 2 = [[False, False], [False, False], [False, False]]"
    by (simp add: np_zeros_def numeral_3_eq_3 numeral_2_eq_2)
  have a: "returnable_set no_store fan_in_graph (reverse no_store fan_in_graph) [0] (np_zeros 3 2) =
     (None, [[True, False], [True, True], [True, True]])"
    unfolding z by (simp add: eval_simps fan_in_graph_def)
  have b: "reachable_set no_store (reverse no_store fan_in_graph) [0] (np_zeros 3 2) =
     (None, [[True, True], [True, False], [False, False]])"
    unfolding z by (simp add: eval_simps fan_in_graph_def)
  have c: "graph_ok fan_in_graph 3 2" by (simp add: graph_ok_def fan_in_graph_def)
  show ?thesis unfolding a b using c by (simp add: cell_def)
qed

lemma reverse_simps:
  "nodes (reverse st g) = nodes g"
  "edges (reverse st g) =
     map (\<lambda>e. \<lparr>src = dst e, dst = src e, action = action e,
                 safe = Flag (truth st (safe e))\<rparr>) (edges g)"
  by (simp_all add: reverse_def)

lemma distinct_map_swap:
  "distinct (map (\<lambda>e. (p e, q e)) xs) \<Longrightarrow> distinct (map (\<lambda>e. (q e, p e)) xs)"
  by (induction xs) auto

lemma reverse_graph_ok:
  assumes ok: "graph_ok g r c" and di: "distinct (map (\<lambda>e. (dst e, action e)) (edges g))"
  shows "graph_ok (reverse st g) r c"
proof -
  have "list_all (\<lambda>e. src e \<in> set (nodes g) \<and> dst e \<in> set (nodes g) \<and>
                    1 \<le> action e \<and> action e < c) (edges g)"
    using ok by (simp add: graph_ok_def)
  then have "list_all (\<lambda>e. src e \<in> set (nodes (reverse st g)) \<and> dst e \<in> set (nodes (reverse st g)) \<and>
                    1 \<le> action e \<and> action e < c) (edges (reverse st g))"
    by (simp add: reverse_simps list_all_iff)
  moreover have "distinct (map (\<lambda>e. (src e, dst e)) (edges (reverse st g)))"
    using distinct_map_swap[OF graph_okD(4)[OF ok]] by (simp add: reverse_simps comp_def)
  moreover have "distinct (map (\<lambda>e. (src e, action e)) (edges (reverse st g)))"
    using di by (simp add: reverse_simps comp_def)
  ultimately show ?thesis using ok by (simp add: graph_ok_def reverse_simps(1))
qed

lemma tasks_of_reach_reverse:
  "t \<in> tasks_of (reach_tasks st (reverse st g)) u \<longleftrightarrow>
     u \<in> set (nodes g) \<and>
     (\<exists>e \<in> set (edges g). dst e = u \<and> t = (u, action e, truth st (safe e), src e))"
  unfolding tasks_of_reach by (auto simp: reverse_simps)

lemma tasks_of_return_nodes:
  assumes ok: "graph_ok g r c" and rv: "is_reverse g rg"
  shows "t \<in> tasks_of (return_tasks st g rg) u \<longleftrightarrow>
           u \<in> set (nodes g) \<and>
           (\<exists>e \<in> set (edges g). dst e = u \<and> t = (src e, action e, truth st (safe e), src e))"
proof (cases "u \<in> set (nodes g)")
  case True
  then show ?thesis using tasks_of_return[OF ok rv True] by simp
next
  case False
  with rv have "u \<notin> set (nodes rg)" by (simp add: is_reverse_def)
  then have "tasks_of (return_tasks st g rg) u = {}"
    by (simp add: tasks_of_def return_tasks_def out_edges_def)
  with False show ?thesis by simp
qed

lemma reverse_rel_of:
  assumes ok: "graph_ok g r c"
  shows "rel_of (return_tasks st g (reverse st g)) = rel_of (reach_tasks st (reverse st g))"
proof -
  note a = tasks_of_return_nodes[where st = st, OF ok is_reverse_reverse[of g st]]
  note b = tasks_of_reach_reverse[where st = st and g = g]
  have "(u, y) \<in> rel_of (return_tasks st g (reverse st g)) \<longleftrightarrow>
        (u, y) \<in> rel_of (reach_tasks st (reverse st g))" for u y
    unfolding rel_of_def by (auto simp: a b)
  then show ?thesis by auto
qed

lemma reverse_closure:
  assumes ok: "graph_ok g r c"
  shows "closure (return_tasks st g (reverse st g)) S = closure (reach_tasks st (reverse st g)) S"
  unfolding closure_def reverse_rel_of[OF ok] ..

lemma closure_nodes:
  assumes "S \<subseteq> N" "\<And>u y. (u, y) \<in> rel_of T \<Longrightarrow> y \<in> N"
  shows "closure T S \<subseteq> N"
proof
  fix z assume "z \<in> closure T S"
  then obtain s where s: "s \<in> S" "(s, z) \<in> (rel_of T)\<^sup>*" by (auto simp: closure_def)
  from s(2) show "z \<in> N"
  proof (induction rule: rtrancl_induct)
    case base
    with s(1) assms(1) show ?case by blast
  next
    case (step y z)
    from assms(2)[OF step(2)] show ?case .
  qed
qed

lemma reverse_action_cells:
  assumes ok: "graph_ok g r c" and di: "distinct (map (\<lambda>e. (dst e, action e)) (edges g))"
    and e: "e \<in> set (edges g)"
  shows "marked (return_tasks st g (reverse st g)) S (src e) (action e) \<longleftrightarrow>
         marked (reach_tasks st (reverse st g)) S (dst e) (action e)"
proof -
  let ?C = "closure (reach_tasks st (reverse st g)) S"
  note a = tasks_of_return_nodes[where st = st, OF ok is_reverse_reverse[of g st]]
  note b = tasks_of_reach_reverse[where st = st and g = g]
  from graph_okD(3)[OF ok e] have a0: "action e \<noteq> 0" and dn: "dst e \<in> set (nodes g)" by simp_all
  have same1: "e' = e" if "e' \<in> set (edges g)" "src e' = src e" "action e' = action e" for e'
  proof -
    from that have "(\<lambda>e. (src e, action e)) e' = (\<lambda>e. (src e, action e)) e" by simp
    from distinct_map_eq[OF graph_okD(5)[OF ok] that(1) e this] show ?thesis .
  qed
  have same2: "e' = e" if "e' \<in> set (edges g)" "dst e' = dst e" "action e' = action e" for e'
  proof -
    from that have "(\<lambda>e. (dst e, action e)) e' = (\<lambda>e. (dst e, action e)) e" by simp
    from distinct_map_eq[OF di that(1) e this] show ?thesis .
  qed
  have l: "marked (return_tasks st g (reverse st g)) S (src e) (action e) \<longleftrightarrow>
           dst e \<in> ?C \<and> truth st (safe e)"
  proof
    assume "marked (return_tasks st g (reverse st g)) S (src e) (action e)"
    with a0 obtain u y where u: "u \<in> ?C"
      "(src e, action e, True, y) \<in> tasks_of (return_tasks st g (reverse st g)) u"
      unfolding marked_def reverse_closure[OF ok] by auto
    from u(2) obtain e' where e': "e' \<in> set (edges g)" "dst e' = u" "src e' = src e"
      "action e' = action e" "truth st (safe e')" unfolding a by auto
    from same1[OF e'(1,3,4)] e'(2,5) u(1) show "dst e \<in> ?C \<and> truth st (safe e)" by simp
  next
    assume h: "dst e \<in> ?C \<and> truth st (safe e)"
    have "(src e, action e, True, src e) \<in> tasks_of (return_tasks st g (reverse st g)) (dst e)"
      unfolding a using e dn h by auto
    with h a0 show "marked (return_tasks st g (reverse st g)) S (src e) (action e)"
      unfolding marked_def reverse_closure[OF ok] by auto
  qed
  have r: "marked (reach_tasks st (reverse st g)) S (dst e) (action e) \<longleftrightarrow>
           dst e \<in> ?C \<and> truth st (safe e)"
  proof
    assume "marked (reach_tasks st (reverse st g)) S (dst e) (action e)"
    with a0 obtain u y where u: "u \<in> ?C"
      "(dst e, action e, True, y) \<in> tasks_of (reach_tasks st (reverse st g)) u"
      unfolding marked_def by auto
    from u(2) obtain e' where e': "e' \<in> set (edges g)" "dst e' = u" "dst e = u"
      "action e' = action e" "truth st (safe e')" unfolding b by auto
    from e'(2,3) have "dst e' = dst e" by simp
    from same2[OF e'(1) this e'(4)] e'(3,5) u(1) show "dst e \<in> ?C \<and> truth st (safe e)" by simp
  next
    assume h: "dst e \<in> ?C \<and> truth st (safe e)"
    have "(dst e, action e, True, src e) \<in> tasks_of (reach_tasks st (reverse st g)) (dst e)"
      unfolding b using e dn h by auto
    with h a0 show "marked (reach_tasks st (reverse st g)) S (dst e) (action e)"
      unfolding marked_def by auto
  qed
  from l r show ?thesis by simp
qed

lemma reverse_traversals:
  assumes ok: "graph_ok g r c" and di: "distinct (map (\<lambda>e. (dst e, action e)) (edges g))"
    and ne: "ns \<noteq> []" and ns: "set ns \<subseteq> set (nodes g)"
  shows "\<exists>v w. returnable_set st g (reverse st g) ns (np_zeros r c) = (None, v) \<and>
           reachable_set st (reverse st g) ns (np_zeros r c) = (None, w) \<and>
           (\<forall>n. cell v n 0 \<longleftrightarrow> cell w n 0) \<and>
           (\<forall>e \<in> set (edges g). cell v (src e) (action e) \<longleftrightarrow> cell w (dst e) (action e))"
proof -
  have em: "\<forall>i j. \<not> cell (np_zeros r c) i j" by (simp add: np_zeros_cell)
  from returnable_set_marked[where st = st, OF ok is_reverse_reverse[of g st] np_zeros_rect em ne ns]
  obtain v where v: "returnable_set st g (reverse st g) ns (np_zeros r c) = (None, v)"
    "\<forall>i j. cell v i j \<longleftrightarrow> marked (return_tasks st g (reverse st g)) (set ns) i j" by blast
  from ns have ns': "set ns \<subseteq> set (nodes (reverse st g))" by (simp add: reverse_simps)
  from reachable_set_marked[where st = st, OF reverse_graph_ok[OF ok di, of st] np_zeros_rect em ne ns']
  obtain w where w: "reachable_set st (reverse st g) ns (np_zeros r c) = (None, w)"
    "\<forall>i j. cell w i j \<longleftrightarrow> marked (reach_tasks st (reverse st g)) (set ns) i j" by blast
  have "\<forall>n. cell v n 0 \<longleftrightarrow> cell w n 0"
    using v(2) w(2) reverse_closure[OF ok, of st "set ns"] by (simp add: marked_def)
  moreover have "\<forall>e \<in> set (edges g). cell v (src e) (action e) \<longleftrightarrow> cell w (dst e) (action e)"
    using v(2) w(2) reverse_action_cells[where st = st and S = "set ns", OF ok di] by simp
  ultimately show ?thesis using v(1) w(1) by blast
qed

text \<open>
  C6 as the code has it: when, in addition, no two edges into the same node carry the
  same action, \<open>returnable_set\<close> on the graph and \<open>reachable_set\<close> on its reverse,
  from the same non-empty seeds and an all-false matrix, both succeed and mark the same
  nodes in column 0; in the action columns the cell of an edge is at its source node in
  the first result and at its target node in the second.
\<close>

theorem reverse_symmetry:
  assumes "graph_ok g r c" and "distinct (map (\<lambda>e. (dst e, action e)) (edges g))"
    and "ns \<noteq> []" and "set ns \<subseteq> set (nodes g)"
  shows "\<exists>v w. returnable_set st g (reverse st g) ns (np_zeros r c) = (None, v) \<and>
           reachable_set st (reverse st g) ns (np_zeros r c) = (None, w) \<and>
           (\<forall>n. cell v n 0 \<longleftrightarrow> cell w n 0) \<and>
           (\<forall>e \<in> set (edges g). cell v (src e) (action e) \<longleftrightarrow> cell w (dst e) (action e))"
  using assms by (rule reverse_traversals)

theorem reverse_symmetry_witness:
  "graph_ok line_graph 3 2 \<and>
   distinct (map (\<lambda>e. (dst e, action e)) (edges line_graph)) \<and>
   [2::nat] \<noteq> [] \<and> set [2] \<subseteq> set (nodes line_graph) \<and>
   (\<exists>v w. returnable_set no_store line_graph (reverse no_store line_graph) [2] (np_zeros 3 2) =
             (None, v) \<and>
          reachable_set no_store (reverse no_store line_graph) [2] (np_zeros 3 2) = (None, w) \<and>
          (\<forall>n. cell v n 0 \<longleftrightarrow> cell w n 0) \<and>
          (\<forall>e \<in> set (edges line_graph). cell v (src e) (action e) \<longleftrightarrow> cell w (dst e) (action e)))"
proof -
  have n: "distinct (map (\<lambda>e. (dst e, action e)) (edges line_graph))"
    "[2::nat] \<noteq> []" "set [2] \<subseteq> set (nodes line_graph)"
    by (simp_all add: line_graph_def)
  from reverse_symmetry[OF line_graph_ok n, of no_store] line_graph_ok n
  show ?thesis by blast
qed

section \<open>Termination and the work of a traversal\<close>

text \<open>
  The record of a run has no event twice, every recorded assignment is to a cell that is
  now true, and every recorded push is of a node whose column 0 is now true.
\<close>

definition tinv :: "bstate \<Rightarrow> bool" where
  "tinv s \<longleftrightarrow>
     (case s of (v, stk, tr) \<Rightarrow>
        distinct tr \<and> (\<forall>i j. Mark i j \<in> set tr \<longrightarrow> cell v i j) \<and>
        (\<forall>n. Push n \<in> set tr \<longrightarrow> cell v n 0))"

lemma tinv_visit_edge:
  assumes "tinv s" "visit_edge x a sf y s = (res, s')"
  shows "tinv s'"
proof -
  obtain v stk tr where s: "s = (v, stk, tr)" by (cases s)
  from assms(1) s have d: "distinct tr" and m: "\<And>i j. Mark i j \<in> set tr \<Longrightarrow> cell v i j"
    and p: "\<And>n. Push n \<in> set tr \<Longrightarrow> cell v n 0" by (simp_all add: tinv_def)
  show ?thesis
  proof (cases "mget v x a")
    case (Inl err)
    with assms s show ?thesis by (simp add: visit_edge_def)
  next
    case (Inr b)
    then have rx: "x < length v" "a < length (v ! x)" and b: "b = v ! x ! a"
      by (simp_all add: mget_Inr)
    show ?thesis
    proof (cases "\<not> b \<and> sf")
      case False
      with assms s Inr show ?thesis by (auto simp: visit_edge_def)
    next
      case True
      let ?v1 = "mput v x a True"
      let ?t1 = "tr @ [Mark x a]"
      from True b have nx: "\<not> cell v x a" by (simp add: cell_def)
      have c1: "\<And>i j. cell ?v1 i j \<longleftrightarrow> cell v i j \<or> (i = x \<and> j = a)"
        using rx by (auto simp: cell_mput)
      from nx m have "Mark x a \<notin> set tr" by blast
      with d have d1: "distinct ?t1" by simp
      have m1: "\<And>i j. Mark i j \<in> set ?t1 \<Longrightarrow> cell ?v1 i j" using m c1 by auto
      have p1: "\<And>n. Push n \<in> set ?t1 \<Longrightarrow> cell ?v1 n 0" using p c1 by auto
      have t1: "tinv (?v1, stk, ?t1)" using d1 m1 p1 by (simp add: tinv_def)
      show ?thesis
      proof (cases "mget ?v1 y 0")
        case (Inl err)
        with assms s Inr True t1 show ?thesis by (simp add: visit_edge_def)
      next
        case (Inr b0)
        then have ry: "y < length ?v1" "0 < length (?v1 ! y)" and b0: "b0 = ?v1 ! y ! 0"
          by (simp_all add: mget_Inr)
        show ?thesis
        proof (cases b0)
          case True
          with assms s \<open>mget v x a = Inr b\<close> \<open>\<not> b \<and> sf\<close> Inr t1 show ?thesis
            by (simp add: visit_edge_def)
        next
          case False
          let ?v2 = "mput ?v1 y 0 True"
          let ?t2 = "tr @ [Mark x a, Push y, Mark y 0]"
          from False b0 have ny: "\<not> cell ?v1 y 0" by (simp add: cell_def)
          have c2: "\<And>i j. cell ?v2 i j \<longleftrightarrow> cell ?v1 i j \<or> (i = y \<and> j = 0)"
            using ry by (auto simp: cell_mput)
          from ny m1 have "Mark y 0 \<notin> set ?t1" by blast
          moreover from ny p1 have "Push y \<notin> set ?t1" by blast
          ultimately have d2: "distinct ?t2" using d1 by auto
          have m2: "\<And>i j. Mark i j \<in> set ?t2 \<Longrightarrow> cell ?v2 i j" using m1 c2 by auto
          have p2: "\<And>n. Push n \<in> set ?t2 \<Longrightarrow> cell ?v2 n 0" using p1 c2 by auto
          have "tinv (?v2, stk @ [y], ?t2)" using d2 m2 p2 by (simp add: tinv_def)
          with assms s \<open>mget v x a = Inr b\<close> \<open>\<not> b \<and> sf\<close> Inr False show ?thesis
            by (simp add: visit_edge_def)
        qed
      qed
    qed
  qed
qed

lemma tinv_pop: "tinv (v, n # stk, tr) \<Longrightarrow> tinv (v, stk, tr)"
  by (simp add: tinv_def)

lemma task_loop_tinv: "tinv s \<Longrightarrow> task_loop T s = (res, s') \<Longrightarrow> tinv s'"
  by (rule task_loop_inv[where I = tinv, OF tinv_visit_edge tinv_pop])

lemma fold_mput_mono: "cell m i j \<Longrightarrow> cell (fold (\<lambda>n v. mput v n 0 True) ns m) i j"
  by (induction ns arbitrary: m) (auto simp: cell_mput)

lemma fold_mput_seed:
  "n \<in> set ns \<Longrightarrow> \<forall>k \<in> set ns. k < length m \<and> 0 < length (m ! k) \<Longrightarrow>
     cell (fold (\<lambda>n v. mput v n 0 True) ns m) n 0"
proof (induction ns arbitrary: m)
  case Nil
  then show ?case by simp
next
  case (Cons k ns)
  have r: "\<forall>q \<in> set ns. q < length (mput m k 0 True) \<and> 0 < length (mput m k 0 True ! q)"
    using Cons.prems(2) by simp
  show ?case
  proof (cases "n = k")
    case True
    with Cons.prems(2) have "cell (mput m k 0 True) n 0" by (simp add: cell_mput)
    from fold_mput_mono[OF this] show ?thesis by simp
  next
    case False
    with Cons.prems(1) have "n \<in> set ns" by simp
    from Cons.IH[OF this r] show ?thesis by simp
  qed
qed

lemma tinv_seed:
  assumes "distinct ns" "seed out ns = Inr v"
  shows "tinv (v, ns, map (\<lambda>n. Mark n 0) ns @ map Push ns)"
proof -
  from assms(2) have r: "\<forall>k \<in> set ns. k < length out \<and> 0 < length (out ! k)"
    and v: "v = fold (\<lambda>n v. mput v n 0 True) ns out"
    by (auto simp: seed_def list_all_iff split: if_splits)
  have c: "\<And>n. n \<in> set ns \<Longrightarrow> cell v n 0" unfolding v using fold_mput_seed r by blast
  have "distinct (map (\<lambda>n. Mark n 0) ns @ map Push ns)"
    using assms(1) by (auto simp: distinct_map inj_on_def)
  with c show ?thesis by (auto simp: tinv_def)
qed

lemma tinv_bound:
  assumes "tinv (v, stk, tr)" "map length v = replicate r c"
  shows "length tr \<le> r * c + r"
proof -
  from assms(1) have d: "distinct tr" and m: "\<And>i j. Mark i j \<in> set tr \<Longrightarrow> cell v i j"
    and p: "\<And>n. Push n \<in> set tr \<Longrightarrow> cell v n 0" by (simp_all add: tinv_def)
  let ?A = "(\<lambda>(i, j). Mark i j) ` ({..<r} \<times> {..<c})"
  let ?B = "Push ` {..<r}"
  have "set tr \<subseteq> ?A \<union> ?B"
  proof
    fix e assume e: "e \<in> set tr"
    show "e \<in> ?A \<union> ?B"
    proof (cases e)
      case (Mark i j)
      with e m cell_bounds[OF assms(2), of i j] have "i < r" "j < c" by simp_all
      with Mark show ?thesis by auto
    next
      case (Push n)
      with e p cell_bounds[OF assms(2), of n 0] have "n < r" by simp
      with Push show ?thesis by auto
    qed
  qed
  then have "card (set tr) \<le> card (?A \<union> ?B)" by (intro card_mono) auto
  also have "\<dots> \<le> card ?A + card ?B" by (rule card_Un_le)
  also have "\<dots> \<le> card ({..<r} \<times> {..<c}) + card {..<r}"
    by (intro add_mono card_image_le) auto
  also have "\<dots> = r * c + r" by simp
  finally show ?thesis using d by (simp add: distinct_card)
qed

lemma task_run_trace:
  assumes "distinct ns"
    and run: "run = (if ns = [] then (Some AttributeError, (out, [], []))
                else case seed out ns of Inl err \<Rightarrow> (Some err, (out, [], []))
                     | Inr v \<Rightarrow> task_loop T (v, ns, map (\<lambda>n. Mark n 0) ns @ map Push ns))"
  shows "tinv (snd run) \<and> map length (fst (snd run)) = map length out \<and>
         (fst run = None \<longrightarrow> fst (snd (snd run)) = [])"
proof (cases "ns = []")
  case True
  with run show ?thesis by (simp add: tinv_def)
next
  case False
  show ?thesis
  proof (cases "seed out ns")
    case (Inl err)
    with run False show ?thesis by (simp add: tinv_def)
  next
    case (Inr v)
    let ?s0 = "(v, ns, map (\<lambda>n. Mark n 0) ns @ map Push ns)"
    obtain res v' stk' tr' where l: "task_loop T ?s0 = (res, (v', stk', tr'))"
      by (cases "task_loop T ?s0") auto
    from task_loop_tinv[OF tinv_seed[OF assms(1) Inr] l] have t: "tinv (v', stk', tr')" .
    from task_loop_shape[OF l] seed_shape[OF Inr] have sh: "map length v' = map length out"
      by simp
    have "res = None \<longrightarrow> stk' = []" using task_loop_stack_empty[of T ?s0 v' stk' tr'] l by auto
    with run False Inr l t sh show ?thesis by simp
  qed
qed

lemma reachable_run_trace:
  assumes "distinct ns"
  shows "tinv (snd (reachable_run st g ns out)) \<and>
         map length (fst (snd (reachable_run st g ns out))) = map length out \<and>
         (fst (reachable_run st g ns out) = None \<longrightarrow>
            fst (snd (snd (reachable_run st g ns out))) = [])"
  by (rule task_run_trace[where T = "reach_tasks st g", OF assms])
     (simp add: reachable_run_def reach_loop_tasks split: sum.splits)

lemma returnable_run_trace:
  assumes "distinct ns"
  shows "tinv (snd (returnable_run st g rg ns out)) \<and>
         map length (fst (snd (returnable_run st g rg ns out))) = map length out \<and>
         (fst (returnable_run st g rg ns out) = None \<longrightarrow>
            fst (snd (snd (returnable_run st g rg ns out))) = [])"
  by (rule task_run_trace[where T = "return_tasks st g rg", OF assms])
     (simp add: returnable_run_def return_loop_tasks split: sum.splits)

lemma run_trace_bound:
  assumes "tinv (snd run)" "map length (fst (snd run)) = map length out" "rect r c out"
  shows "distinct (snd (snd (snd run))) \<and> length (snd (snd (snd run))) \<le> r * c + r"
proof -
  obtain res v stk tr where run: "run = (res, (v, stk, tr))" by (cases run) auto
  from assms(2,3) run have "map length v = replicate r c" by (simp add: rect_iff)
  from tinv_bound[OF _ this, of stk tr] assms(1) run show ?thesis by (simp add: tinv_def)
qed

lemma reachable_trace_run: "reachable_trace st g ns out = snd (snd (snd (reachable_run st g ns out)))"
  by (simp add: reachable_trace_def split: prod.splits)

lemma returnable_trace_run:
  "returnable_trace st g rg ns out = snd (snd (snd (returnable_run st g rg ns out)))"
  by (simp add: returnable_trace_def split: prod.splits)

lemma reachable_set_run: "fst (reachable_set st g ns out) = fst (reachable_run st g ns out)"
  by (simp add: reachable_set_def split: prod.splits)

lemma returnable_set_run:
  "fst (returnable_set st g rg ns out) = fst (returnable_run st g rg ns out)"
  by (simp add: returnable_set_def split: prod.splits)

text \<open>
  C8: both loops terminate on every input, being total functions whose recursion
  descends along \<open>weight\<close>. For a seed list without repetitions, no cell is set to true
  twice and no node is pushed twice in a run (the record has no event twice, so with an
  \<open>r\<close> by \<open>c\<close> matrix it has at most \<open>r * c + r\<close> events); a run that returns
  normally has ended with the queue empty; and on a well-formed graph with seeds among its
  nodes the run does return normally.
\<close>

theorem traversals_terminate:
  assumes "distinct ns" and "rect r c out"
  shows "distinct (reachable_trace st g ns out) \<and>
         length (reachable_trace st g ns out) \<le> r * c + r \<and>
         distinct (returnable_trace st g rg ns out) \<and>
         length (returnable_trace st g rg ns out) \<le> r * c + r \<and>
         (fst (reachable_run st g ns out) = None \<longrightarrow>
            fst (snd (snd (reachable_run st g ns out))) = []) \<and>
         (fst (returnable_run st g rg ns out) = None \<longrightarrow>
            fst (snd (snd (returnable_run st g rg ns out))) = []) \<and>
         (graph_ok g r c \<and> is_reverse g rg \<and> ns \<noteq> [] \<and> set ns \<subseteq> set (nodes g) \<longrightarrow>
            fst (reachable_run st g ns out) = None \<and>
            fst (returnable_run st g rg ns out) = None)"
proof -
  note a = reachable_run_trace[OF assms(1), of st g out]
  note b = returnable_run_trace[OF assms(1), of st g rg out]
  from run_trace_bound[OF a[THEN conjunct1] a[THEN conjunct2, THEN conjunct1] assms(2)]
  have 1: "distinct (reachable_trace st g ns out) \<and>
           length (reachable_trace st g ns out) \<le> r * c + r"
    by (simp add: reachable_trace_run)
  from run_trace_bound[OF b[THEN conjunct1] b[THEN conjunct2, THEN conjunct1] assms(2)]
  have 2: "distinct (returnable_trace st g rg ns out) \<and>
           length (returnable_trace st g rg ns out) \<le> r * c + r"
    by (simp add: returnable_trace_run)
  have 3: "fst (reachable_run st g ns out) = None \<and> fst (returnable_run st g rg ns out) = None"
    if "graph_ok g r c \<and> is_reverse g rg \<and> ns \<noteq> [] \<and> set ns \<subseteq> set (nodes g)"
    using that reachable_set_ok[of g r c out ns st] returnable_set_ok[of g r c rg out ns st]
      assms(2)
    by (simp add: reachable_set_run returnable_set_run)
  from 1 2 3 a[THEN conjunct2, THEN conjunct2] b[THEN conjunct2, THEN conjunct2]
  show ?thesis by blast
qed

lemma np_zeros_3_2: "np_zeros 3 2 = [[False, False], [False, False], [False, False]]"
  by (simp add: np_zeros_def numeral_3_eq_3 numeral_2_eq_2)

lemma line_graph_reachable_run:
  "reachable_run no_store line_graph [0] (np_zeros 3 2) =
     (None, [[True, True], [True, True], [True, False]], [],
      [Mark 0 0, Push 0, Mark 0 1, Push 1, Mark 1 0, Mark 1 1, Push 2, Mark 2 0])"
  unfolding np_zeros_3_2 by (simp add: eval_simps line_graph_def)

theorem traversals_terminate_witness:
  "distinct [0::nat] \<and> rect 3 2 (np_zeros 3 2) \<and>
   graph_ok line_graph 3 2 \<and> is_reverse line_graph (reverse no_store line_graph) \<and>
   [0::nat] \<noteq> [] \<and> set [0] \<subseteq> set (nodes line_graph) \<and>
   reachable_run no_store line_graph [0] (np_zeros 3 2) =
     (None, [[True, True], [True, True], [True, False]], [],
      [Mark 0 0, Push 0, Mark 0 1, Push 1, Mark 1 0, Mark 1 1, Push 2, Mark 2 0]) \<and>
   distinct (reachable_trace no_store line_graph [0] (np_zeros 3 2)) \<and>
   length (reachable_trace no_store line_graph [0] (np_zeros 3 2)) \<le> 3 * 2 + 3 \<and>
   distinct (returnable_trace no_store line_graph (reverse no_store line_graph) [0]
     (np_zeros 3 2)) \<and>
   fst (returnable_run no_store line_graph (reverse no_store line_graph) [0] (np_zeros 3 2)) =
     None \<and>
   fst (snd (snd (returnable_run no_store line_graph (reverse no_store line_graph) [0]
     (np_zeros 3 2)))) = []"
proof -
  have n: "distinct [0::nat]" "[0::nat] \<noteq> []" "set [0] \<subseteq> set (nodes line_graph)"
    by (simp_all add: line_graph_def)
  note h = line_graph_ok line_graph_reverse np_zeros_rect[of 3 2]
  note t = traversals_terminate[OF n(1) h(3), of no_store line_graph
      "reverse no_store line_graph"]
  from t h n have ok: "fst (returnable_run no_store line_graph (reverse no_store line_graph) [0]
      (np_zeros 3 2)) = None" by blast
  with t have "fst (snd (snd (returnable_run no_store line_graph (reverse no_store line_graph) [0]
     (np_zeros 3 2)))) = []" by blast
  with ok t[THEN conjunct1] t[THEN conjunct2, THEN conjunct1]
    t[THEN conjunct2, THEN conjunct2, THEN conjunct1] h n line_graph_reachable_run
  show ?thesis by (intro conjI)
qed

section \<open>The difference kernel of utilities.py\<close>

text \<open>
  The base kernel is an object of the external GP library: it has an \<open>input_dim\<close>
  and a covariance function \<open>k\<close>, here \<open>kfun\<close>, and its methods evaluate that
  function point by point: \<open>K(X, X2)\<close> is the matrix of \<open>k(X[i], X2[j])\<close>,
  \<open>K(X)\<close> is \<open>K(X, X)\<close>, and \<open>Kdiag(X)\<close> is the vector of \<open>k(X[i], X[i])\<close>.
  A point is a list of coordinates. The numbers are of any type with \<open>+\<close>, \<open>-\<close>,
  \<open>*\<close> and the numeral 2: no law of arithmetic is used, so what is proved holds for
  floating-point numbers with the operations in the order the code applies them.
\<close>

record ('x, 'v) kernel =
  input_dim :: nat
  kfun :: "'x list \<Rightarrow> 'x list \<Rightarrow> 'v"

definition kern_K :: "('x, 'v) kernel \<Rightarrow> 'x list list \<Rightarrow> 'x list list option \<Rightarrow> 'v list list" where
  "kern_K kern X X2 =
     (case X2 of
        None \<Rightarrow> map (\<lambda>a. map (\<lambda>b. kfun kern a b) X) X
      | Some Y \<Rightarrow> map (\<lambda>a. map (\<lambda>b. kfun kern a b) Y) X)"

definition kern_Kdiag :: "('x, 'v) kernel \<Rightarrow> 'x list list \<Rightarrow> 'v list" where
  "kern_Kdiag kern X = map (\<lambda>a. kfun kern a a) X"

text \<open>\<open>np.diag\<close> of a matrix: its diagonal.\<close>

definition np_diag :: "'v list list \<Rightarrow> 'v list" where
  "np_diag M = map (\<lambda>i. M ! i ! i) [0..<min (length M) (case M of [] \<Rightarrow> 0 | r # _ \<Rightarrow> length r)]"

text \<open>
  \<open>DifferenceKernel.K\<close> and \<open>DifferenceKernel.Kdiag\<close>: \<open>x[:, :dim]\<close> takes the
  first \<open>dim\<close> coordinates of every row and \<open>x[:, dim:]\<close> drops them; the sums and
  differences are element-wise on arrays of equal shape.
\<close>

definition DifferenceKernel_K ::
  "('x, 'v::{plus,minus}) kernel \<Rightarrow> 'x list list \<Rightarrow> 'x list list option \<Rightarrow> 'v list list" where
  "DifferenceKernel_K kern x1 x2 =
     (let dim = input_dim kern in
      case x2 of
        None \<Rightarrow>
          (let x10 = map (take dim) x1; x11 = map (drop dim) x1 in
           map2 (map2 (-))
             (map2 (map2 (-))
                (map2 (map2 (+)) (kern_K kern x10 None) (kern_K kern x11 None))
                (kern_K kern x10 (Some x11)))
             (kern_K kern x11 (Some x10)))
      | Some x2' \<Rightarrow>
          (let x20 = map (take dim) x2'; x21 = map (drop dim) x2' in
           map2 (map2 (-)) (kern_K kern x1 (Some x20)) (kern_K kern x1 (Some x21))))"

definition DifferenceKernel_Kdiag ::
  "('x, 'v::{plus,minus,times,numeral}) kernel \<Rightarrow> 'x list list \<Rightarrow> 'v list" where
  "DifferenceKernel_Kdiag kern x =
     (let dim = input_dim kern; x0 = map (take dim) x; x1 = map (drop dim) x in
      map2 (-) (map2 (+) (kern_Kdiag kern x0) (kern_Kdiag kern x1))
        (map (\<lambda>v. 2 * v) (np_diag (kern_K kern x0 (Some x1)))))"

text \<open>\<open>np.hstack((X1, X2))\<close>: the rows of concatenated pairs.\<close>

definition hstack :: "('x list \<times> 'x list) list \<Rightarrow> 'x list list" where
  "hstack ps = map (\<lambda>(a1, a2). a1 @ a2) ps"

lemma take_hstack:
  "list_all (\<lambda>p. length (fst p) = d) ps \<Longrightarrow> map (take d) (hstack ps) = map fst ps"
  by (induction ps) (auto simp: hstack_def)

lemma drop_hstack:
  "list_all (\<lambda>p. length (fst p) = d) ps \<Longrightarrow> map (drop d) (hstack ps) = map snd ps"
  by (induction ps) (auto simp: hstack_def)

lemma map2_same: "map2 f (map p xs) (map q xs) = map (\<lambda>x. f (p x) (q x)) xs"
  by (induction xs) auto

lemma np_diag_square:
  "np_diag (map (\<lambda>a. map (\<lambda>b. f a b) xs) xs) = map (\<lambda>a. f a a) xs"
proof -
  let ?M = "map (\<lambda>a. map (\<lambda>b. f a b) xs) xs"
  have "(case ?M of [] \<Rightarrow> 0 | r # _ \<Rightarrow> length r) = length xs"
    by (cases xs) simp_all
  then have "np_diag ?M = map (\<lambda>i. ?M ! i ! i) [0..<length xs]"
    by (simp add: np_diag_def)
  also have "\<dots> = map (\<lambda>a. f a a) xs"
    by (rule nth_equalityI) simp_all
  finally show ?thesis .
qed

lemma DK_K_single:
  assumes "list_all (\<lambda>p. length (fst p) = input_dim kern) ps"
  shows "DifferenceKernel_K kern (hstack ps) None =
           map (\<lambda>(a1, a2). map (\<lambda>(b1, b2).
             kfun kern a1 b1 + kfun kern a2 b2 - kfun kern a1 b2 - kfun kern a2 b1) ps) ps"
  unfolding DifferenceKernel_K_def Let_def kern_K_def option.case
    take_hstack[OF assms] drop_hstack[OF assms]
  apply (simp only: map_map comp_def map2_same)
  apply (simp add: case_prod_unfold)
  done

lemma DK_K_cross:
  assumes "list_all (\<lambda>p. length (fst p) = input_dim kern) qs"
  shows "DifferenceKernel_K kern xs (Some (hstack qs)) =
           map (\<lambda>x. map (\<lambda>(b1, b2). kfun kern x b1 - kfun kern x b2) qs) xs"
  unfolding DifferenceKernel_K_def Let_def kern_K_def option.case
    take_hstack[OF assms] drop_hstack[OF assms]
  apply (simp only: map_map comp_def map2_same)
  apply (simp add: case_prod_unfold)
  done

lemma DK_Kdiag:
  assumes "list_all (\<lambda>p. length (fst p) = input_dim kern) ps"
  shows "DifferenceKernel_Kdiag kern (hstack ps) =
           map (\<lambda>(a1, a2). kfun kern a1 a1 + kfun kern a2 a2 - 2 * kfun kern a1 a2) ps"
proof -
  have d: "np_diag (map (\<lambda>a. map (kfun kern a) (map snd ps)) (map fst ps)) =
             map (\<lambda>p. kfun kern (fst p) (snd p)) ps"
    using np_diag_square[of "\<lambda>a b. kfun kern (fst a) (snd b)" ps]
    by (simp add: comp_def)
  show ?thesis
    unfolding DifferenceKernel_Kdiag_def Let_def kern_K_def kern_Kdiag_def option.case
      take_hstack[OF assms] drop_hstack[OF assms] d
    apply (simp only: map_map comp_def map2_same)
    apply (simp add: case_prod_unfold)
    done
qed

text \<open>
  C9: for every base kernel and all inputs whose rows are pairs concatenated at the
  kernel's input dimension, \<open>K\<close> on a single argument has the entries
  \<open>k(a1,b1) + k(a2,b2) - k(a1,b2) - k(a2,b1)\<close>; \<open>K\<close> of plain points \<open>x\<close>
  against pairs has the entries \<open>k(x,a1) - k(x,a2)\<close>, which is
  \<open>k(a1,x) - k(a2,x)\<close> for a symmetric \<open>k\<close>, as every covariance function is;
  and \<open>Kdiag\<close> has the entries \<open>k(a1,a1) + k(a2,a2) - 2 * k(a1,a2)\<close>.
\<close>

theorem difference_kernel_formulas:
  assumes "list_all (\<lambda>p. length (fst p) = input_dim kern) ps"
    and "list_all (\<lambda>p. length (fst p) = input_dim kern) qs"
  shows "DifferenceKernel_K kern (hstack ps) None =
           map (\<lambda>(a1, a2). map (\<lambda>(b1, b2).
             kfun kern a1 b1 + kfun kern a2 b2 - kfun kern a1 b2 - kfun kern a2 b1) ps) ps \<and>
         DifferenceKernel_K kern xs (Some (hstack qs)) =
           map (\<lambda>x. map (\<lambda>(a1, a2). kfun kern x a1 - kfun kern x a2) qs) xs \<and>
         ((\<forall>a b. kfun kern a b = kfun kern b a) \<longrightarrow>
            DifferenceKernel_K kern xs (Some (hstack qs)) =
              map (\<lambda>x. map (\<lambda>(a1, a2). kfun kern a1 x - kfun kern a2 x) qs) xs) \<and>
         DifferenceKernel_Kdiag kern (hstack ps) =
           map (\<lambda>(a1, a2). kfun kern a1 a1 + kfun kern a2 a2 - 2 * kfun kern a1 a2) ps"
  using DK_K_single[OF assms(1)] DK_K_cross[OF assms(2), of xs] DK_Kdiag[OF assms(1)]
  by simp

definition product_kernel :: "(int, int) kernel" where
  "product_kernel = \<lparr>input_dim = 1, kfun = (\<lambda>a b. sum_list a * sum_list b)\<rparr>"

theorem difference_kernel_formulas_witness:
  "list_all (\<lambda>p. length (fst p) = input_dim product_kernel) [([1], [2]), ([5], [3])] \<and>
   (\<forall>a b. kfun product_kernel a b = kfun product_kernel b a) \<and>
   DifferenceKernel_K product_kernel (hstack [([1], [2]), ([5], [3])]) None = [[1, - 2], [- 2, 4]] \<and>
   DifferenceKernel_K product_kernel [[7]] (Some (hstack [([1], [2]), ([5], [3])])) = [[- 7, 14]] \<and>
   DifferenceKernel_Kdiag product_kernel (hstack [([1], [2]), ([5], [3])]) = [1, 4]"
proof -
  have a: "list_all (\<lambda>p. length (fst p) = input_dim product_kernel) [([1], [2]), ([5], [3])]"
    by (simp add: product_kernel_def)
  have s: "\<forall>a b. kfun product_kernel a b = kfun product_kernel b a"
    by (simp add: product_kernel_def mult.commute)
  from difference_kernel_formulas[OF a a, of "[[7]]"] a s show ?thesis
    by (simp add: product_kernel_def)
qed

end
